theory Spec2Isabelle
  imports Complex_Main "HOL-Library.Multiset"
begin

section \<open>Python strings\<close>

text \<open>
  A Python \<open>str\<close> is modelled as a \<open>string\<close>: a list of characters, each character
  standing for the code point of the same number (the files of this pipeline are ASCII
  tables; the model covers the code points below 256). \<open>len\<close> is \<open>length\<close>.
\<close>

definition py_isspace :: "char \<Rightarrow> bool" where
  \<comment> \<open>\<open>str.isspace\<close> on one character: the whitespace that \<open>split()\<close> and \<open>strip()\<close> remove.\<close>
  "py_isspace c =
     (let n = (of_char c :: nat)
      in (9 \<le> n \<and> n \<le> 13) \<or> (28 \<le> n \<and> n \<le> 32) \<or> n = 133 \<or> n = 160)"

definition startswith :: "string \<Rightarrow> string \<Rightarrow> bool" where
  \<comment> \<open>\<open>s.startswith(p)\<close>\<close>
  "startswith p s = (take (length p) s = p)"

fun contains :: "string \<Rightarrow> string \<Rightarrow> bool" where
  \<comment> \<open>\<open>sub in s\<close>\<close>
  "contains sub [] = (sub = [])"
| "contains sub (c # cs) = (startswith sub (c # cs) \<or> contains sub cs)"

definition lstrip :: "string \<Rightarrow> string" where
  "lstrip s = dropWhile py_isspace s"

definition rstrip :: "string \<Rightarrow> string" where
  "rstrip s = rev (dropWhile py_isspace (rev s))"

definition strip :: "string \<Rightarrow> string" where
  \<comment> \<open>\<open>s.strip()\<close>\<close>
  "strip s = rstrip (lstrip s)"

definition rstrip_nl :: "string \<Rightarrow> string" where
  \<comment> \<open>\<open>s.rstrip("\n")\<close>\<close>
  "rstrip_nl s = rev (dropWhile (\<lambda>c. c = CHR 0x0A) (rev s))"

fun split_acc :: "string \<Rightarrow> string \<Rightarrow> string list" where
  "split_acc cur [] = (if cur = [] then [] else [cur])"
| "split_acc cur (c # cs) =
     (if py_isspace c then (if cur = [] then split_acc [] cs else cur # split_acc [] cs)
      else split_acc (cur @ [c]) cs)"

definition split_ws :: "string \<Rightarrow> string list" where
  \<comment> \<open>\<open>s.split()\<close>: the maximal runs of non-whitespace characters\<close>
  "split_ws s = split_acc [] s"

fun split_char :: "char \<Rightarrow> string \<Rightarrow> string list" where
  \<comment> \<open>\<open>s.split(d)\<close> for a separator of one character\<close>
  "split_char d [] = [[]]"
| "split_char d (c # cs) =
     (if c = d then [] # split_char d cs
      else (case split_char d cs of [] \<Rightarrow> [[c]] | w # ws \<Rightarrow> (c # w) # ws))"

definition split_char1 :: "char \<Rightarrow> string \<Rightarrow> string list" where
  \<comment> \<open>\<open>s.split(d, 1)\<close> for a separator of one character: at most one cut\<close>
  "split_char1 d s =
     (if d \<in> set s then [takeWhile (\<lambda>c. c \<noteq> d) s, tl (dropWhile (\<lambda>c. c \<noteq> d) s)]
      else [s])"

fun before_sep :: "string \<Rightarrow> string \<Rightarrow> string" where
  \<comment> \<open>\<open>s.split(sep)[0]\<close> for a non-empty separator: the text before its first occurrence\<close>
  "before_sep sep [] = []"
| "before_sep sep (c # cs) = (if startswith sep (c # cs) then [] else c # before_sep sep cs)"

definition basename :: "string \<Rightarrow> string" where
  \<comment> \<open>\<open>os.path.basename\<close> (POSIX): the text after the last slash\<close>
  "basename p = rev (takeWhile (\<lambda>c. c \<noteq> CHR ''/'') (rev p))"

datatype error = IndexError | ValueError | AssertionError | RuntimeError

section \<open>Python floats\<close>

text \<open>
  A float is a finite real number, an infinity or a NaN. The rounding of the float format
  is a parameter \<open>rnd\<close> of every operation that rounds: it takes the exact real result to
  the float that the operation returns (an infinity on overflow). With \<open>rnd = Fin\<close> the
  arithmetic is exact; \<open>round_binary64\<close> below is the rounding of Python's floats. The sign
  of a zero is not modelled.
\<close>

datatype pyfloat = Fin real | PInf | NInf | NaN

type_synonym rounding = "real \<Rightarrow> pyfloat"

fun fadd :: "rounding \<Rightarrow> pyfloat \<Rightarrow> pyfloat \<Rightarrow> pyfloat" where
  \<comment> \<open>\<open>a + b\<close> on floats\<close>
  "fadd rnd (Fin x) (Fin y) = rnd (x + y)"
| "fadd rnd NaN b = NaN"
| "fadd rnd a NaN = NaN"
| "fadd rnd PInf NInf = NaN"
| "fadd rnd NInf PInf = NaN"
| "fadd rnd PInf b = PInf"
| "fadd rnd a PInf = PInf"
| "fadd rnd NInf b = NInf"
| "fadd rnd a NInf = NInf"

fun fdiv_nat :: "rounding \<Rightarrow> pyfloat \<Rightarrow> nat \<Rightarrow> pyfloat" where
  \<comment> \<open>\<open>a / n\<close> for a float and a positive int\<close>
  "fdiv_nat rnd (Fin x) n = rnd (x / real n)"
| "fdiv_nat rnd a n = a"

definition int_truediv :: "rounding \<Rightarrow> nat \<Rightarrow> nat \<Rightarrow> pyfloat" where
  \<comment> \<open>\<open>a / b\<close> for two ints, \<open>b\<close> positive: the quotient, rounded once\<close>
  "int_truediv rnd a b = rnd (real a / real b)"

definition py_sum :: "rounding \<Rightarrow> pyfloat list \<Rightarrow> pyfloat" where
  \<comment> \<open>\<open>sum(xs)\<close>: from 0, adding from the left\<close>
  "py_sum rnd xs = foldl (fadd rnd) (Fin 0) xs"

definition is_digit :: "char \<Rightarrow> bool" where
  "is_digit c = (let n = (of_char c :: nat) in 48 \<le> n \<and> n \<le> 57)"

definition digit_val :: "char \<Rightarrow> nat" where
  "digit_val c = of_char c - 48"

definition digits_val :: "string \<Rightarrow> nat" where
  "digits_val ds = foldl (\<lambda>a c. 10 * a + digit_val c) 0 ds"

definition c_isspace :: "char \<Rightarrow> bool" where
  \<comment> \<open>the ASCII whitespace that \<open>float()\<close> strips\<close>
  "c_isspace c = (let n = (of_char c :: nat) in (9 \<le> n \<and> n \<le> 13) \<or> n = 32)"

definition float_ascii :: "string \<Rightarrow> string" where
  \<comment> \<open>\<open>float()\<close> first maps a non-ASCII space to a blank and any other character from
      127 on to a question mark\<close>
  "float_ascii s =
     map (\<lambda>c. if (of_char c :: nat) < 127 then c
              else if py_isspace c then CHR '' '' else CHR ''?'') s"

fun drop_underscores :: "char \<Rightarrow> string \<Rightarrow> string option" where
  \<comment> \<open>an underscore is accepted between two digits only, and removed\<close>
  "drop_underscores prev [] = (if prev = CHR ''_'' then None else Some [])"
| "drop_underscores prev (c # cs) =
     (if c = CHR ''_'' then (if is_digit prev then drop_underscores c cs else None)
      else if prev = CHR ''_'' \<and> \<not> is_digit c then None
      else map_option ((#) c) (drop_underscores c cs))"

definition lower_codes :: "string \<Rightarrow> nat list" where
  \<comment> \<open>the code points of \<open>s.lower()\<close>, for ASCII letters\<close>
  "lower_codes s = map (\<lambda>c. let n = (of_char c :: nat)
                             in if 65 \<le> n \<and> n \<le> 90 then n + 32 else n) s"

definition caseless_eq :: "string \<Rightarrow> string \<Rightarrow> bool" where
  \<comment> \<open>\<open>s\<close> is the lower-case word \<open>w\<close> up to the case of its letters\<close>
  "caseless_eq s w = (lower_codes s = map of_char w)"

definition scale10 :: "nat \<Rightarrow> int \<Rightarrow> real" where
  \<comment> \<open>\<open>m\<close> times ten to the power \<open>k\<close>\<close>
  "scale10 m k = (if 0 \<le> k then real m * 10 ^ nat k else real m / 10 ^ nat (- k))"

definition parse_exponent :: "string \<Rightarrow> int option" where
  \<comment> \<open>what follows the mantissa: nothing, or \<open>e\<close>, a sign if any, and digits\<close>
  "parse_exponent r =
     (if r = [] then Some 0
      else if hd r = CHR ''e'' \<or> hd r = CHR ''E'' then
        (let r1 = tl r;
             neg = (r1 \<noteq> [] \<and> hd r1 = CHR ''-'');
             r2 = (if r1 \<noteq> [] \<and> (hd r1 = CHR ''-'' \<or> hd r1 = CHR ''+'') then tl r1 else r1)
         in if r2 \<noteq> [] \<and> list_all is_digit r2
            then Some (if neg then - int (digits_val r2) else int (digits_val r2))
            else None)
      else None)"

definition parse_decimal :: "string \<Rightarrow> real option" where
  \<comment> \<open>digits, a point and digits (one of the two digit runs may be empty), an exponent\<close>
  "parse_decimal s =
     (let ip = takeWhile is_digit s;
          r1 = dropWhile is_digit s;
          point = (r1 \<noteq> [] \<and> hd r1 = CHR ''.'');
          fp = (if point then takeWhile is_digit (tl r1) else []);
          r2 = (if point then dropWhile is_digit (tl r1) else r1)
      in if ip = [] \<and> fp = [] then None
         else (case parse_exponent r2 of
                 None \<Rightarrow> None
               | Some e \<Rightarrow> Some (scale10 (digits_val (ip @ fp)) (e - int (length fp)))))"

definition parse_signed :: "rounding \<Rightarrow> string \<Rightarrow> pyfloat option" where
  "parse_signed rnd s =
     (let neg = (s \<noteq> [] \<and> hd s = CHR ''-'');
          body = (if s \<noteq> [] \<and> (hd s = CHR ''-'' \<or> hd s = CHR ''+'') then tl s else s)
      in if caseless_eq body ''inf'' \<or> caseless_eq body ''infinity''
         then Some (if neg then NInf else PInf)
         else if caseless_eq body ''nan'' then Some NaN
         else (case parse_decimal body of
                 None \<Rightarrow> None
               | Some v \<Rightarrow> Some (rnd (if neg then - v else v))))"

definition py_float :: "rounding \<Rightarrow> string \<Rightarrow> pyfloat option" where
  \<comment> \<open>\<open>float(s)\<close> on a string; None is ValueError\<close>
  "py_float rnd s =
     (case drop_underscores (CHR 0x00) (float_ascii s) of
        None \<Rightarrow> None
      | Some t \<Rightarrow>
          parse_signed rnd (rev (dropWhile c_isspace (rev (dropWhile c_isspace t)))))"

definition round_half_even :: "real \<Rightarrow> nat" where
  \<comment> \<open>the nearest integer to a real that is not negative, a tie going to the even one\<close>
  "round_half_even r =
     (let f = nat \<lfloor>r\<rfloor>; d = r - real f
      in if d < 1 / 2 then f else if 1 / 2 < d then f + 1
         else if even f then f else f + 1)"

definition round_binary64 :: rounding where
  \<comment> \<open>IEEE 754 binary64, round to nearest, ties to even: the spacing of the floats around
      \<open>x\<close> is \<open>2\<close> to the power \<open>e - 52\<close>, where \<open>e\<close> is the binary exponent of \<open>x\<close>, and
      never less than \<open>-1022\<close>; a result of \<open>2 ^ 1024\<close> or more is an infinity\<close>
  "round_binary64 x =
     (if x = 0 then Fin 0
      else (let e = max \<lfloor>log 2 \<bar>x\<bar>\<rfloor> (- 1022);
                q = 2 powr real_of_int (e - 52);
                y = real (round_half_even (\<bar>x\<bar> / q)) * q
            in if 2 powr 1024 \<le> y then (if x < 0 then NInf else PInf)
               else Fin (if x < 0 then - y else y)))"

definition digit_char :: "nat \<Rightarrow> char" where
  \<comment> \<open>the character of a digit below ten\<close>
  "digit_char n = ''0123456789'' ! n"

fun digits_of :: "nat \<Rightarrow> string" where
  \<comment> \<open>\<open>str(n)\<close>\<close>
  "digits_of n =
     (if n < 10 then [digit_char n] else digits_of (n div 10) @ [digit_char (n mod 10)])"

declare digits_of.simps [simp del]

fun frac_digits :: "nat \<Rightarrow> nat \<Rightarrow> string" where
  \<comment> \<open>the last \<open>d\<close> decimal digits of \<open>n\<close>, with leading zeros\<close>
  "frac_digits 0 n = []"
| "frac_digits (Suc d) n = frac_digits d (n div 10) @ [digit_char (n mod 10)]"

definition format_f :: "nat \<Rightarrow> pyfloat \<Rightarrow> string" where
  \<comment> \<open>\<open>format(x, ".df")\<close>: the value rounded to \<open>d\<close> places\<close>
  "format_f d x =
     (case x of
        NaN \<Rightarrow> ''nan''
      | PInf \<Rightarrow> ''inf''
      | NInf \<Rightarrow> ''-inf''
      | Fin v \<Rightarrow>
          (let q = round_half_even (\<bar>v\<bar> * 10 ^ d)
           in (if v < 0 then ''-'' else '''') @ digits_of (q div 10 ^ d)
              @ (if d = 0 then '''' else ''.'' @ frac_digits d q)))"

section \<open>Entity resolver\<close>

definition is_AF :: "string \<Rightarrow> bool" where
  \<comment> \<open>\<open>'__AF-' in os.path.basename(p)\<close>\<close>
  "is_AF p = contains ''__AF-'' (basename p)"

definition prefer_alphaFold :: "string list \<Rightarrow> error + string" where
  \<comment> \<open>the first path whose file name has the marker, else \<open>pdb_paths[0]\<close>,
      which raises IndexError on an empty list\<close>
  "prefer_alphaFold pdb_paths =
     (case find is_AF pdb_paths of
        Some p \<Rightarrow> Inr p
      | None \<Rightarrow> (case pdb_paths of [] \<Rightarrow> Inl IndexError | p # _ \<Rightarrow> Inr p))"

definition refseq_of :: "string \<Rightarrow> string" where
  \<comment> \<open>\<open>base.split('__')[0]\<close>\<close>
  "refseq_of base = before_sep ''__'' base"

section \<open>Label joiner\<close>

type_synonym dict = "string \<rightharpoonup> string"

definition setdefault :: "dict \<Rightarrow> string \<Rightarrow> string \<Rightarrow> dict" where
  "setdefault m k v = (case m k of None \<Rightarrow> m(k \<mapsto> v) | Some _ \<Rightarrow> m)"

definition get_default :: "dict \<Rightarrow> string \<Rightarrow> string \<Rightarrow> string" where
  \<comment> \<open>\<open>m.get(k, d)\<close>\<close>
  "get_default m k d = (case m k of None \<Rightarrow> d | Some v \<Rightarrow> v)"

definition map_entry :: "string \<Rightarrow> (string \<times> string) option" where
  \<comment> \<open>the body of the loaders' loop on one line: the pair (refseq, abbr) the line gives,
      if it gives one\<close>
  "map_entry raw =
     (let line = strip raw
      in if line = [] \<or> startswith ''#'' line then None
         else (let first = hd (split_char1 (CHR 0x09) line);
                   parts = split_char (CHR ''|'') first
               in if length parts \<ge> 2 then Some (parts ! 1, parts ! 0) else None))"

definition load_step :: "dict \<Rightarrow> string \<Rightarrow> dict" where
  "load_step ref2abbr raw =
     (case map_entry raw of
        None \<Rightarrow> ref2abbr
      | Some (refseq, abbr) \<Rightarrow> setdefault ref2abbr refseq abbr)"

definition load_refseq_to_abbr :: "string list \<Rightarrow> dict" where
  \<comment> \<open>\<open>dssp_batch_summary.load_refseq_to_abbr\<close>, on the lines of the mapping file\<close>
  "load_refseq_to_abbr lines = foldl load_step Map.empty lines"

definition build_refseq_to_abbr :: "string list \<Rightarrow> error + dict" where
  \<comment> \<open>\<open>label_and_plot_net_charges.build_refseq_to_abbr\<close>: the same loop, and
      RuntimeError when the dict is empty\<close>
  "build_refseq_to_abbr lines =
     (let ref2abbr = foldl load_step Map.empty lines
      in if ref2abbr = Map.empty then Inl RuntimeError else Inr ref2abbr)"

definition dssp_join :: "dict \<Rightarrow> dict \<Rightarrow> string \<Rightarrow> string \<times> string" where
  \<comment> \<open>\<open>dssp_batch_summary.main\<close>, lines 246-247: (abbr, status)\<close>
  "dssp_join ref2abbr abbr2status refseq =
     (let abbr = get_default ref2abbr refseq ''unknown'';
          status = get_default abbr2status abbr ''unknown''
      in (abbr, status))"

definition label_join :: "dict \<Rightarrow> dict \<Rightarrow> string \<Rightarrow> string option \<times> string" where
  \<comment> \<open>\<open>label_and_plot_net_charges.main\<close>, lines 96-103: \<open>Series.map\<close> gives a missing
      value (None here) where the key is absent, and \<open>fillna\<close> replaces it\<close>
  "label_join ref2abbr abbr2status refseq =
     (let abbr = ref2abbr refseq;
          status = (case abbr of None \<Rightarrow> None | Some a \<Rightarrow> abbr2status a)
      in (abbr, case status of None \<Rightarrow> ''unknown'' | Some s \<Rightarrow> s))"

section \<open>Secondary-structure tables\<close>

definition HELIX :: "string set" where
  "HELIX = {''H'', ''G'', ''I''}"

definition SHEET :: "string set" where
  "SHEET = {''E'', ''B''}"

text \<open>The local variables of the loop of \<open>parse_dssp_counts\<close>.\<close>

record dssp_state =
  st_in_table :: bool
  st_total :: nat
  st_helix :: nat
  st_sheet :: nat
  st_coil :: nat
  st_asas :: "pyfloat list"

text \<open>The dict that \<open>parse_dssp_counts\<close> returns.\<close>

record metrics =
  n_total :: nat
  n_helix :: nat
  n_sheet :: nat
  n_coil :: nat
  frac_helix :: pyfloat
  frac_sheet :: pyfloat
  frac_coil :: pyfloat
  mean_ASA :: pyfloat

definition is_header :: "string \<Rightarrow> bool" where
  "is_header line = startswith ''  #  RESIDUE'' line"

definition row_ss :: "string \<Rightarrow> string" where
  \<comment> \<open>\<open>line[16].strip()\<close>\<close>
  "row_ss line = strip [line ! 16]"

definition row_asa_str :: "string \<Rightarrow> string" where
  \<comment> \<open>\<open>line[34:38].strip()\<close>\<close>
  "row_asa_str line = strip (take 4 (drop 34 line))"

definition row_asa :: "rounding \<Rightarrow> string \<Rightarrow> pyfloat" where
  \<comment> \<open>the float of the field, and 0.0 when the field is blank or is not a float\<close>
  "row_asa rnd line =
     (let asa_str = row_asa_str line
      in if asa_str \<noteq> [] then (case py_float rnd asa_str of Some v \<Rightarrow> v | None \<Rightarrow> Fin 0)
         else Fin 0)"

definition dssp_step :: "rounding \<Rightarrow> dssp_state \<Rightarrow> string \<Rightarrow> dssp_state" where
  \<comment> \<open>one turn of the loop; \<open>line\<close> is as the file iterator gives it, newline included\<close>
  "dssp_step rnd st line =
     (if is_header line then st\<lparr>st_in_table := True\<rparr>
      else if \<not> st_in_table st then st
      else if length line < 50 then st
      else (let ss = row_ss line;
                asa = row_asa rnd line;
                st1 = st\<lparr>st_total := st_total st + 1\<rparr>;
                st2 = (if ss \<in> HELIX then st1\<lparr>st_helix := st_helix st1 + 1\<rparr>
                       else if ss \<in> SHEET then st1\<lparr>st_sheet := st_sheet st1 + 1\<rparr>
                       else st1\<lparr>st_coil := st_coil st1 + 1\<rparr>)
            in st2\<lparr>st_asas := st_asas st2 @ [asa]\<rparr>))"

definition dssp_init :: dssp_state where
  "dssp_init = \<lparr>st_in_table = False, st_total = 0, st_helix = 0, st_sheet = 0, st_coil = 0,
                 st_asas = []\<rparr>"

definition dssp_loop :: "rounding \<Rightarrow> string list \<Rightarrow> dssp_state" where
  "dssp_loop rnd lines = foldl (dssp_step rnd) dssp_init lines"

definition parse_dssp_counts :: "rounding \<Rightarrow> string list \<Rightarrow> error + metrics" where
  "parse_dssp_counts rnd lines =
     (let st = dssp_loop rnd lines
      in if st_total st = 0 then Inl AssertionError
         else Inr \<lparr>n_total = st_total st, n_helix = st_helix st, n_sheet = st_sheet st,
                    n_coil = st_coil st,
                    frac_helix = int_truediv rnd (st_helix st) (st_total st),
                    frac_sheet = int_truediv rnd (st_sheet st) (st_total st),
                    frac_coil = int_truediv rnd (st_coil st) (st_total st),
                    mean_ASA = (if st_asas st \<noteq> []
                                then fdiv_nat rnd (py_sum rnd (st_asas st)) (length (st_asas st))
                                else Fin 0)\<rparr>)"

text \<open>
  The loop of \<open>dssp_batch_summary.main\<close> over the groups. What lies outside the program
  is an input: \<open>env\<close> tells, for the chosen PDB file, whether cleaning fails, whether
  \<open>mkdssp\<close> fails, whether the table cannot be read, or the lines of the table.
\<close>

datatype dssp_source = CleanFails | MkdsspFails | Unreadable | DsspFile "string list"

datatype diagnostic = SkipClean string | SkipMkdssp string | SkipParse string

record summary = metrics +
  RefSeq :: string
  abbr :: string
  status :: string
  source :: string

datatype outcome = Crash error | Skipped diagnostic | Row summary

definition process_group ::
  "rounding \<Rightarrow> dict \<Rightarrow> dict \<Rightarrow> (string \<Rightarrow> dssp_source) \<Rightarrow> string \<times> string list \<Rightarrow> outcome" where
  "process_group rnd ref2abbr abbr2status env g =
     (case prefer_alphaFold (snd g) of
        Inl e \<Rightarrow> Crash e
      | Inr chosen_pdb \<Rightarrow>
          (let base = basename chosen_pdb
           in case env chosen_pdb of
                CleanFails \<Rightarrow> Skipped (SkipClean base)
              | MkdsspFails \<Rightarrow> Skipped (SkipMkdssp base)
              | Unreadable \<Rightarrow> Skipped (SkipParse base)
              | DsspFile lines \<Rightarrow>
                  (case parse_dssp_counts rnd lines of
                     Inl e \<Rightarrow> Skipped (SkipParse base)
                   | Inr m \<Rightarrow>
                       (let j = dssp_join ref2abbr abbr2status (fst g)
                        in Row (metrics.extend m
                             \<lparr>RefSeq = fst g, abbr = fst j, status = snd j,
                              source = (if contains ''__AF-'' base then ''AF'' else ''SWM'')\<rparr>)))))"

fun main_loop ::
  "rounding \<Rightarrow> dict \<Rightarrow> dict \<Rightarrow> (string \<Rightarrow> dssp_source) \<Rightarrow> (string \<times> string list) list
     \<Rightarrow> error + (summary list \<times> diagnostic list)" where
  "main_loop rnd ref2abbr abbr2status env [] = Inr ([], [])"
| "main_loop rnd ref2abbr abbr2status env (g # gs) =
     (case process_group rnd ref2abbr abbr2status env g of
        Crash e \<Rightarrow> Inl e
      | Skipped d \<Rightarrow>
          (case main_loop rnd ref2abbr abbr2status env gs of
             Inl e \<Rightarrow> Inl e
           | Inr (records, logged) \<Rightarrow> Inr (records, d # logged))
      | Row r \<Rightarrow>
          (case main_loop rnd ref2abbr abbr2status env gs of
             Inl e \<Rightarrow> Inl e
           | Inr (records, logged) \<Rightarrow> Inr (r # records, logged)))"

section \<open>Charge tables\<close>

definition is_pqr_line :: "string \<Rightarrow> bool" where
  "is_pqr_line s = (startswith ''ATOM'' s \<or> startswith ''HETATM'' s)"

definition iter_pqr_lines :: "string list option \<Rightarrow> string list" where
  \<comment> \<open>the lines of the file without their newline; nothing when the file cannot be opened\<close>
  "iter_pqr_lines content = (case content of None \<Rightarrow> [] | Some ls \<Rightarrow> map rstrip_nl ls)"

definition tolerant_charge :: "rounding \<Rightarrow> string \<Rightarrow> pyfloat option" where
  \<comment> \<open>the body of the loop of \<open>sum_charge_for_file\<close>: the charge a line adds, if any\<close>
  "tolerant_charge rnd line =
     (if \<not> is_pqr_line line then None
      else (let parts = split_ws line
            in if length parts < 8 then None
               else py_float rnd (parts ! (length parts - 2))))"

definition charge_step :: "rounding \<Rightarrow> nat \<times> pyfloat \<Rightarrow> string \<Rightarrow> nat \<times> pyfloat" where
  "charge_step rnd acc line =
     (case tolerant_charge rnd line of
        None \<Rightarrow> acc
      | Some charge \<Rightarrow> (fst acc + 1, fadd rnd (snd acc) charge))"

definition sum_charge_for_file :: "rounding \<Rightarrow> string list option \<Rightarrow> nat \<times> pyfloat" where
  \<comment> \<open>\<open>sum_pqr_chargesv3.sum_charge_for_file\<close>: (atoms, total)\<close>
  "sum_charge_for_file rnd content = foldl (charge_step rnd) (0, Fin 0) (iter_pqr_lines content)"

definition v3_rows ::
  "rounding \<Rightarrow> nat \<Rightarrow> bool \<Rightarrow> (string \<times> string list option) list \<Rightarrow> string list list" where
  \<comment> \<open>the rows that \<open>sum_pqr_chargesv3.main\<close> hands to the csv writer\<close>
  "v3_rows rnd digits no_header files =
     (if no_header then [] else [[''path'', ''net_charge'']])
     @ map (\<lambda>f. [basename (fst f), format_f digits (snd (sum_charge_for_file rnd (snd f)))]) files"

definition legacy_charge :: "rounding \<Rightarrow> string \<Rightarrow> pyfloat option" where
  \<comment> \<open>the body of the loop of \<open>sum_pqr_charges.main\<close>: the charge a line adds, if any\<close>
  "legacy_charge rnd line =
     (if startswith ''ATOM'' line \<or> startswith ''HETATM'' line then
        (let parts = split_ws line
         in if length parts \<ge> 10 then py_float rnd (parts ! 9) else None)
      else None)"

definition legacy_step :: "rounding \<Rightarrow> pyfloat \<Rightarrow> string \<Rightarrow> pyfloat" where
  "legacy_step rnd tot line =
     (case legacy_charge rnd line of None \<Rightarrow> tot | Some c \<Rightarrow> fadd rnd tot c)"

definition legacy_total :: "rounding \<Rightarrow> string list \<Rightarrow> pyfloat" where
  "legacy_total rnd lines = foldl (legacy_step rnd) (Fin 0) lines"

definition legacy_line :: "rounding \<Rightarrow> string \<times> string list \<Rightarrow> string" where
  \<comment> \<open>the line written for one file\<close>
  "legacy_line rnd f =
     basename (fst f) @ [CHR 0x09] @ ''NetCharge='' @ format_f 3 (legacy_total rnd (snd f))
       @ [CHR 0x0A]"

definition sum_pqr_charges_main :: "rounding \<Rightarrow> (string \<times> string list) list \<Rightarrow> string" where
  \<comment> \<open>\<open>sum_pqr_charges.main\<close>: the text of the output file, for the files found\<close>
  "sum_pqr_charges_main rnd pqr_files = concat (map (legacy_line rnd) pqr_files)"

section \<open>Labelling the charge table\<close>

fun file_lines_acc :: "string \<Rightarrow> string \<Rightarrow> string list" where
  "file_lines_acc cur [] = (if cur = [] then [] else [cur])"
| "file_lines_acc cur (c # cs) =
     (if c = CHR 0x0A then (cur @ [CHR 0x0A]) # file_lines_acc [] cs
      else if c = CHR 0x0D then
        (case cs of
           [] \<Rightarrow> [cur @ [CHR 0x0A]]
         | c' # cs' \<Rightarrow>
             (if c' = CHR 0x0A then (cur @ [CHR 0x0A]) # file_lines_acc [] cs'
              else (cur @ [CHR 0x0A]) # file_lines_acc [] (c' # cs')))
      else file_lines_acc (cur @ [c]) cs)"

definition file_lines :: "string \<Rightarrow> string list" where
  \<comment> \<open>the lines that iterating a text file gives: each ends at a line feed, a carriage
      return or the two together, read as one line feed; the last line may have none\<close>
  "file_lines text = file_lines_acc [] text"

definition read_step :: "rounding \<Rightarrow> (string \<times> pyfloat) list \<Rightarrow> string \<Rightarrow> (string \<times> pyfloat) list" where
  "read_step rnd rows raw =
     (let line = strip raw
      in if line = [] then rows
         else (case split_char1 (CHR 0x09) line of
                 [fname, ztok] \<Rightarrow>
                   (if \<not> startswith ''NetCharge='' ztok then rows
                    else (case py_float rnd (split_char1 (CHR ''='') ztok ! 1) of
                            None \<Rightarrow> rows
                          | Some z \<Rightarrow> rows @ [(fname, z)]))
               | _ \<Rightarrow> rows))"

definition read_charges_table :: "rounding \<Rightarrow> string \<Rightarrow> error + (string \<times> pyfloat) list" where
  "read_charges_table rnd text =
     (let rows = foldl (read_step rnd) [] (file_lines text)
      in if rows = [] then Inl RuntimeError else Inr rows)"

record labelled =
  File :: string
  NetCharge :: pyfloat
  RefSeq_col :: string
  Abbr :: "string option"
  Status :: string

definition label_row :: "dict \<Rightarrow> dict \<Rightarrow> string \<times> pyfloat \<Rightarrow> labelled" where
  "label_row ref2abbr abbr2status r =
     (let refseq = refseq_of (fst r);
          j = label_join ref2abbr abbr2status refseq
      in \<lparr>File = fst r, NetCharge = snd r, RefSeq_col = refseq, Abbr = fst j, Status = snd j\<rparr>)"

definition label_main :: "rounding \<Rightarrow> string \<Rightarrow> string list \<Rightarrow> dict \<Rightarrow> error + labelled list" where
  \<comment> \<open>\<open>label_and_plot_net_charges.main\<close>, steps 1 to 4: the labelled table\<close>
  "label_main rnd charges_text map_lines abbr2status =
     (case read_charges_table rnd charges_text of
        Inl e \<Rightarrow> Inl e
      | Inr charges \<Rightarrow>
          (case build_refseq_to_abbr map_lines of
             Inl e \<Rightarrow> Inl e
           | Inr ref2abbr \<Rightarrow> Inr (map (label_row ref2abbr abbr2status) charges)))"

section \<open>Notions used to state the properties\<close>

definition post_header :: "string list \<Rightarrow> string list" where
  \<comment> \<open>the lines after the first header line of a secondary-structure table\<close>
  "post_header lines = drop 1 (dropWhile (\<lambda>l. \<not> is_header l) lines)"

definition data_rows :: "string list \<Rightarrow> string list" where
  \<comment> \<open>the post-header lines of at least 50 characters that are not header lines\<close>
  "data_rows lines = filter (\<lambda>l. \<not> is_header l \<and> 50 \<le> length l) (post_header lines)"

definition charge_token :: "string \<Rightarrow> string option" where
  \<comment> \<open>the second-to-last whitespace token of a line, when it has two tokens\<close>
  "charge_token line =
     (let parts = split_ws line
      in if 2 \<le> length parts then Some (parts ! (length parts - 2)) else None)"

definition charge_of :: "rounding \<Rightarrow> string \<Rightarrow> pyfloat option" where
  \<comment> \<open>the float of the charge token of a line, when the line has the token and
      \<open>float\<close> accepts it\<close>
  "charge_of rnd line = (case charge_token line of None \<Rightarrow> None | Some t \<Rightarrow> py_float rnd t)"

definition spec_counted :: "rounding \<Rightarrow> string \<Rightarrow> bool" where
  \<comment> \<open>the lines that the claim counts: a record-type prefix and a charge token that
      parses\<close>
  "spec_counted rnd line = (is_pqr_line line \<and> charge_of rnd line \<noteq> None)"

definition counted_line :: "rounding \<Rightarrow> string \<Rightarrow> bool" where
  \<comment> \<open>the same, for lines of at least eight tokens\<close>
  "counted_line rnd line =
     (is_pqr_line line \<and> 8 \<le> length (split_ws line) \<and> charge_of rnd line \<noteq> None)"

definition tsv_safe :: "string \<Rightarrow> bool" where
  \<comment> \<open>a file name that a line of the table can hold: not empty, no whitespace in front,
      no tab, line feed or carriage return\<close>
  "tsv_safe name =
     (name \<noteq> [] \<and> \<not> py_isspace (hd name) \<and> CHR 0x09 \<notin> set name \<and> CHR 0x0A \<notin> set name
      \<and> CHR 0x0D \<notin> set name)"

definition unit_roundoff :: real where
  \<comment> \<open>half the distance from 1 to the next binary64 float\<close>
  "unit_roundoff = 1 / 2 ^ 53"

definition tiny :: real where
  \<comment> \<open>a bound below every positive value that the fractions of a table can take\<close>
  "tiny = 1 / 2 ^ 65"

definition rel_rounding :: "rounding \<Rightarrow> bool" where
  \<comment> \<open>the rounding of a binary format with 53 bits of precision, on zero and on the
      positive reals of its normal range: the result is finite and its error is at most
      the unit roundoff times the value\<close>
  "rel_rounding rnd =
     (\<forall>x. x = 0 \<or> (1 / 2 ^ 1022 \<le> x \<and> x \<le> 2 ^ 1023)
        \<longrightarrow> (\<exists>y. rnd x = Fin y \<and> \<bar>y - x\<bar> \<le> x * unit_roundoff))"

definition add_rows :: "rounding \<Rightarrow> dssp_state \<Rightarrow> string list \<Rightarrow> dssp_state" where
  \<comment> \<open>the loop variables after the data rows \<open>rows\<close> have been counted\<close>
  "add_rows rnd st rows =
     st\<lparr>st_total := st_total st + length rows,
        st_helix := st_helix st + length (filter (\<lambda>l. row_ss l \<in> HELIX) rows),
        st_sheet := st_sheet st + length (filter (\<lambda>l. row_ss l \<notin> HELIX \<and> row_ss l \<in> SHEET) rows),
        st_coil := st_coil st + length (filter (\<lambda>l. row_ss l \<notin> HELIX \<and> row_ss l \<notin> SHEET) rows),
        st_asas := st_asas st @ map (row_asa rnd) rows\<rparr>"

definition spec_min_length :: nat where
  \<comment> \<open>the least length of a line that holds the code at offset 16 and the field at
      offsets 34 to 38\<close>
  "spec_min_length = 39"

definition spec_data_rows :: "string list \<Rightarrow> string list" where
  \<comment> \<open>the data rows as the claim has them: the post-header lines of that length\<close>
  "spec_data_rows lines = filter (\<lambda>l. spec_min_length \<le> length l) (post_header lines)"

section \<open>Example inputs\<close>

definition dssp_header :: string where
  "dssp_header = ''  #  RESIDUE AA STRUCTURE BP1 BP2  ACC     N-H-->O    O-->H-N'' @ [CHR 0x0A]"

definition dssp_row_coil :: string where
  "dssp_row_coil = ''    1    1 A M              0   0  203      0, 0.0     2,-0.'' @ [CHR 0x0A]"

definition dssp_row_helix_bad :: string where
  "dssp_row_helix_bad = ''    2    2 A V  H           0   0   xx      0, 0.0     2,-0.'' @ [CHR 0x0A]"

definition dssp_row_short :: string where
  "dssp_row_short = ''    3    3 A L  E           0   0   17      '' @ [CHR 0x0A]"

definition pqr_atom :: string where
  "pqr_atom = ''ATOM      1  N   MET     1      27.340  24.430   2.614 -0.415 1.8750'' @ [CHR 0x0A]"

definition pqr_atom_bad :: string where
  "pqr_atom_bad = ''ATOM      2  CA  MET     1      26.266  25.413   2.842 n/a 2.0000'' @ [CHR 0x0A]"

definition pqr_truncated :: string where
  "pqr_truncated = ''ATOM      7  HA  -0.415 1.8750'' @ [CHR 0x0A]"

definition pqr_legacy :: string where
  "pqr_legacy = ''ATOM      1  N   MET A   1      27.340  24.430   2.614 -0.415 1.8750'' @ [CHR 0x0A]"

definition pqr_swapped :: string where
  "pqr_swapped = ''ATOM      1  N   MET     1      27.340  24.430   2.614 1.8750 -0.415'' @ [CHR 0x0A]"

definition pqr_no_atoms :: "string list" where
  "pqr_no_atoms = [''REMARK   1 PQR file generated by PDB2PQR'' @ [CHR 0x0A], ''END'' @ [CHR 0x0A]]"

definition pqr_tab_path :: string where
  "pqr_tab_path = ''pqr/NP_1__AF'' @ [CHR 0x09] @ ''P1.pqr''"

section \<open>Properties\<close>

lemma find_the_only:
  "p \<in> set qs \<Longrightarrow> P p \<Longrightarrow> \<forall>q\<in>set qs. P q \<longrightarrow> q = p \<Longrightarrow> find P qs = Some p"
proof (induction qs)
  case Nil
  then show ?case by simp
next
  case (Cons a qs)
  show ?case
  proof (cases "P a")
    case True
    then have "a = p" using Cons.prems(3) by simp
    then show ?thesis using True by simp
  next
    case False
    then have "a \<noteq> p" using Cons.prems(2) by blast
    then have "p \<in> set qs" using Cons.prems(1) by simp
    moreover have "\<forall>q\<in>set qs. P q \<longrightarrow> q = p" using Cons.prems(3) by simp
    ultimately have "find P qs = Some p" using Cons.IH Cons.prems(2) by blast
    then show ?thesis using False by simp
  qed
qed


text \<open>
  Claim C6. A group of candidate paths in which exactly one file name contains the marker
  \<open>__AF-\<close> (however often that path is listed) and the others do not: the resolver
  returns the marked path, for every ordering \<open>qs\<close> of the group \<open>ps\<close>.
\<close>

theorem prefer_alphaFold_selects_marked:
  assumes "p \<in> set ps" and "is_AF p" and "\<forall>q\<in>set ps. is_AF q \<longrightarrow> q = p"
    and "mset qs = mset ps"
  shows "prefer_alphaFold qs = Inr p"
proof -
  have eq: "set qs = set ps" using assms(4) by (rule mset_eq_setD)
  have 1: "p \<in> set qs" using assms(1) eq by simp
  have 2: "\<forall>q\<in>set qs. is_AF q \<longrightarrow> q = p" using assms(3) eq by simp
  have "find is_AF qs = Some p"
    using 1 assms(2) 2 by (rule find_the_only)
  then show ?thesis by (simp add: prefer_alphaFold_def)
qed

theorem prefer_alphaFold_selects_marked_witness:
  "prefer_alphaFold [''pdb/NP_1__SWM-a.pdb'', ''pdb/NP_1__AF-P1.pdb'', ''pdb/NP_1__SWM-b.pdb''] = Inr ''pdb/NP_1__AF-P1.pdb''
   \<and> prefer_alphaFold [''pdb/NP_1__AF-P1.pdb'', ''pdb/NP_1__SWM-b.pdb'', ''pdb/NP_1__SWM-a.pdb''] = Inr ''pdb/NP_1__AF-P1.pdb''"
proof -
  let ?p = "''pdb/NP_1__AF-P1.pdb''"
  let ?ps = "[''pdb/NP_1__SWM-a.pdb'', ?p, ''pdb/NP_1__SWM-b.pdb'']"
  let ?qs = "[?p, ''pdb/NP_1__SWM-b.pdb'', ''pdb/NP_1__SWM-a.pdb'']"
  have a: "?p \<in> set ?ps" by simp
  have b: "is_AF ?p" by (simp add: is_AF_def basename_def startswith_def)
  have c: "\<forall>q\<in>set ?ps. is_AF q \<longrightarrow> q = ?p"
    by (simp add: is_AF_def basename_def startswith_def)
  have d: "mset ?ps = mset ?ps" by simp
  have e: "mset ?qs = mset ?ps" by (simp add: add.commute)
  show ?thesis
    using prefer_alphaFold_selects_marked [OF a b c d]
      prefer_alphaFold_selects_marked [OF a b c e] by simp
qed

lemma load_step_keeps: "m k = Some a \<Longrightarrow> load_step m l k = Some a"
  by (auto simp: load_step_def setdefault_def split: option.splits)

lemma foldl_load_step_keeps: "m k = Some a \<Longrightarrow> foldl load_step m ls k = Some a"
  by (induction ls arbitrary: m) (auto intro: load_step_keeps)

lemma load_step_other:
  "\<forall>a'. map_entry l \<noteq> Some (k, a') \<Longrightarrow> load_step m l k = m k"
  by (auto simp: load_step_def setdefault_def split: option.splits)

lemma foldl_load_step_other:
  "\<forall>l\<in>set pre. \<forall>a'. map_entry l \<noteq> Some (k, a') \<Longrightarrow> foldl load_step m pre k = m k"
  by (induction pre arbitrary: m) (auto simp: load_step_other)

lemma load_step_first:
  "map_entry l = Some (k, a) \<Longrightarrow> m k = None \<Longrightarrow> load_step m l k = Some a"
  by (simp add: load_step_def setdefault_def)

lemma load_step_later:
  "map_entry l = Some (k, a') \<Longrightarrow> m k = Some a \<Longrightarrow> load_step m l = m"
  by (simp add: load_step_def setdefault_def)

text \<open>
  Claim C8. When the line \<open>l\<close> is the first line of the mapping file that gives the
  entity key \<open>k\<close>, with abbreviation \<open>a\<close>, both loaders map \<open>k\<close> to \<open>a\<close> whatever
  lines follow; neither raises; and one more line for \<open>k\<close>, with any abbreviation, leaves
  the whole mapping as it is.
\<close>

theorem first_seen_wins:
  assumes "map_entry l = Some (k, a)"
    and "\<forall>l'\<in>set pre. \<forall>a'. map_entry l' \<noteq> Some (k, a')"
  shows "load_refseq_to_abbr (pre @ l # post) k = Some a
       \<and> (\<exists>m. build_refseq_to_abbr (pre @ l # post) = Inr m \<and> m k = Some a)
       \<and> (\<forall>l2 a2. map_entry l2 = Some (k, a2) \<longrightarrow>
            load_step (load_refseq_to_abbr (pre @ l # post)) l2 = load_refseq_to_abbr (pre @ l # post))"
proof -
  have "foldl load_step Map.empty pre k = None"
    using assms(2) by (simp add: foldl_load_step_other)
  then have "load_step (foldl load_step Map.empty pre) l k = Some a"
    using assms(1) by (rule load_step_first [rotated])
  then have 1: "foldl load_step Map.empty (pre @ l # post) k = Some a"
    by (simp add: foldl_load_step_keeps)
  then have 2: "foldl load_step Map.empty (pre @ l # post) \<noteq> Map.empty"
    by auto
  show ?thesis
    using 1 2 by (auto simp: load_refseq_to_abbr_def build_refseq_to_abbr_def load_step_later)
qed

lemmas map_entry_eval = map_entry_def strip_def lstrip_def rstrip_def py_isspace_def startswith_def split_char1_def

theorem first_seen_wins_witness:
  "load_refseq_to_abbr [''# mapping'', ''ABC|NP_000001|geneX'', ''XYZ|NP_000001|geneX''] ''NP_000001'' = Some ''ABC''"
proof -
  have a: "map_entry ''ABC|NP_000001|geneX'' = Some (''NP_000001'', ''ABC'')"
    by (simp add: map_entry_eval)
  have b: "\<forall>l'\<in>set [''# mapping'']. \<forall>a'. map_entry l' \<noteq> Some (''NP_000001'', a')"
    by (simp add: map_entry_eval)
  show ?thesis
    using first_seen_wins [OF a b, of "[''XYZ|NP_000001|geneX'']"] by simp
qed

text \<open>
  Claim C7. In \<open>dssp_batch_summary.main\<close> the default abbreviation \<open>unknown\<close> of the first
  lookup is itself looked up in the label table: with a label table that has a row for the
  abbreviation \<open>unknown\<close>, an entity key absent from the mapping gets that row's status,
  where \<open>label_and_plot_net_charges.main\<close> gives \<open>unknown\<close>.
\<close>

theorem dssp_join_sentinel_collision:
  "dssp_join Map.empty [''unknown'' \<mapsto> ''aquatic''] ''NP_000001'' = (''unknown'', ''aquatic'')
   \<and> label_join Map.empty [''unknown'' \<mapsto> ''aquatic''] ''NP_000001'' = (None, ''unknown'')"
  by (simp add: dssp_join_def label_join_def get_default_def)

subsection \<open>The loop of the secondary-structure parser\<close>

lemma dssp_step_in_table:
  "st_in_table st \<Longrightarrow>
   dssp_step rnd st l = add_rows rnd st (filter (\<lambda>l. \<not> is_header l \<and> 50 \<le> length l) [l])"
  by (simp add: dssp_step_def add_rows_def Let_def)

lemma add_rows_in_table [simp]: "st_in_table (add_rows rnd st rows) = st_in_table st"
  by (simp add: add_rows_def)

lemma add_rows_append: "add_rows rnd (add_rows rnd st xs) ys = add_rows rnd st (xs @ ys)"
  by (simp add: add_rows_def)

lemma dssp_fold_in_table:
  "st_in_table st \<Longrightarrow>
   foldl (dssp_step rnd) st ls = add_rows rnd st (filter (\<lambda>l. \<not> is_header l \<and> 50 \<le> length l) ls)"
proof (induction ls arbitrary: st)
  case Nil
  then show ?case by (simp add: add_rows_def)
next
  case (Cons l ls)
  have "foldl (dssp_step rnd) st (l # ls) = foldl (dssp_step rnd) (dssp_step rnd st l) ls"
    by simp
  also have "\<dots> = foldl (dssp_step rnd)
      (add_rows rnd st (filter (\<lambda>l. \<not> is_header l \<and> 50 \<le> length l) [l])) ls"
    using Cons.prems by (simp only: dssp_step_in_table)
  also have "\<dots> = add_rows rnd (add_rows rnd st (filter (\<lambda>l. \<not> is_header l \<and> 50 \<le> length l) [l]))
      (filter (\<lambda>l. \<not> is_header l \<and> 50 \<le> length l) ls)"
    using Cons.prems by (intro Cons.IH) simp
  also have "\<dots> = add_rows rnd st (filter (\<lambda>l. \<not> is_header l \<and> 50 \<le> length l) (l # ls))"
    by (simp only: add_rows_append filter_append [symmetric] append_Cons append_Nil)
  finally show ?case .
qed

lemma dssp_fold_seeking:
  "\<not> st_in_table st \<Longrightarrow>
   foldl (dssp_step rnd) st ls = foldl (dssp_step rnd) st (dropWhile (\<lambda>l. \<not> is_header l) ls)"
proof (induction ls)
  case Nil
  then show ?case by simp
next
  case (Cons l ls)
  show ?case
  proof (cases "is_header l")
    case True
    then show ?thesis by simp
  next
    case False
    then have "dssp_step rnd st l = st" using Cons.prems by (simp add: dssp_step_def)
    then show ?thesis using False Cons by simp
  qed
qed

lemma dssp_loop_rows:
  "dssp_loop rnd lines =
     add_rows rnd (dssp_init\<lparr>st_in_table := (\<exists>l\<in>set lines. is_header l)\<rparr>) (data_rows lines)"
proof (cases "dropWhile (\<lambda>l. \<not> is_header l) lines")
  case Nil
  then have no: "\<forall>l\<in>set lines. \<not> is_header l"
    by (simp add: dropWhile_eq_Nil_conv)
  have "dssp_loop rnd lines = foldl (dssp_step rnd) dssp_init []"
    unfolding dssp_loop_def using dssp_fold_seeking [of dssp_init rnd lines] Nil
    by (simp add: dssp_init_def)
  moreover have "data_rows lines = []"
    unfolding data_rows_def post_header_def Nil by simp
  ultimately show ?thesis using no
    by (simp add: add_rows_def dssp_init_def)
next
  case (Cons h rest)
  then have h: "is_header h" using hd_dropWhile [of "\<lambda>l. \<not> is_header l" lines] by auto
  have ex: "\<exists>l\<in>set lines. is_header l"
    using Cons h set_dropWhileD [of h "\<lambda>l. \<not> is_header l" lines] by auto
  have "dssp_loop rnd lines = foldl (dssp_step rnd) dssp_init (h # rest)"
    unfolding dssp_loop_def using dssp_fold_seeking [of dssp_init rnd lines] Cons
    by (simp add: dssp_init_def)
  also have "\<dots> = foldl (dssp_step rnd) (dssp_init\<lparr>st_in_table := True\<rparr>) rest"
    using h by (simp add: dssp_step_def)
  also have "\<dots> = add_rows rnd (dssp_init\<lparr>st_in_table := True\<rparr>)
       (filter (\<lambda>l. \<not> is_header l \<and> 50 \<le> length l) rest)"
    by (rule dssp_fold_in_table) simp
  finally have "dssp_loop rnd lines = add_rows rnd (dssp_init\<lparr>st_in_table := True\<rparr>)
       (filter (\<lambda>l. \<not> is_header l \<and> 50 \<le> length l) rest)" .
  moreover have "data_rows lines = filter (\<lambda>l. \<not> is_header l \<and> 50 \<le> length l) rest"
    unfolding data_rows_def post_header_def Cons by simp
  ultimately show ?thesis using ex by simp
qed


lemma parse_dssp_counts_rows:
  "parse_dssp_counts rnd lines =
     (let rows = data_rows lines;
          h = length (filter (\<lambda>l. row_ss l \<in> HELIX) rows);
          s = length (filter (\<lambda>l. row_ss l \<notin> HELIX \<and> row_ss l \<in> SHEET) rows);
          c = length (filter (\<lambda>l. row_ss l \<notin> HELIX \<and> row_ss l \<notin> SHEET) rows)
      in if rows = [] then Inl AssertionError
         else Inr \<lparr>n_total = length rows, n_helix = h, n_sheet = s, n_coil = c,
                    frac_helix = int_truediv rnd h (length rows),
                    frac_sheet = int_truediv rnd s (length rows),
                    frac_coil = int_truediv rnd c (length rows),
                    mean_ASA = fdiv_nat rnd (py_sum rnd (map (row_asa rnd) rows)) (length rows)\<rparr>)"
  by (simp add: parse_dssp_counts_def dssp_loop_rows add_rows_def dssp_init_def Let_def)

lemmas dssp_eval = dssp_header_def dssp_row_coil_def dssp_row_helix_bad_def dssp_row_short_def
  data_rows_def post_header_def is_header_def startswith_def row_ss_def row_asa_def row_asa_str_def
  strip_def lstrip_def rstrip_def py_isspace_def HELIX_def SHEET_def

lemma rows_example:
  "data_rows [dssp_header, dssp_row_coil, dssp_row_short, dssp_row_helix_bad]
     = [dssp_row_coil, dssp_row_helix_bad]"
  by (simp add: dssp_eval)

lemma short_len: "length dssp_row_short = 45"
  by (simp add: dssp_row_short_def)

lemmas float_eval = py_float_def float_ascii_def parse_signed_def parse_decimal_def
  parse_exponent_def lower_codes_def caseless_eq_def scale10_def is_digit_def digit_val_def
  digits_val_def c_isspace_def py_isspace_def

lemma bad_asa: "py_float rnd (row_asa_str dssp_row_helix_bad) = None"
  by (simp add: dssp_row_helix_bad_def row_asa_str_def strip_def lstrip_def rstrip_def float_eval)

lemma ex_parse:
  "parse_dssp_counts Fin [dssp_header, dssp_row_coil, dssp_row_short, dssp_row_helix_bad]
    = Inr \<lparr>n_total = 2, n_helix = 1, n_sheet = 0, n_coil = 1, frac_helix = Fin (1/2),
       frac_sheet = Fin 0, frac_coil = Fin (1/2), mean_ASA = Fin (203/2)\<rparr>"
  unfolding parse_dssp_counts_rows rows_example
  by (simp add: dssp_row_coil_def dssp_row_helix_bad_def row_ss_def row_asa_def row_asa_str_def
    strip_def lstrip_def rstrip_def HELIX_def SHEET_def int_truediv_def py_sum_def float_eval)


text \<open>
  Claim C9, as amended. In fixed-width mode the data rows are the lines after the first
  header line that have at least 50 characters, line terminator included, and do not start
  with the header prefix. The parser raises when there is none; otherwise \<open>n_total\<close> is
  their number, each bucket counts the rows with its codes, and the exposures averaged
  are those of these rows, in order. No other line contributes anything: a shorter line
  is rejected as a whole.
\<close>

theorem fixed_width_rows:
  "parse_dssp_counts rnd lines =
     (let rows = data_rows lines;
          h = length (filter (\<lambda>l. row_ss l \<in> HELIX) rows);
          s = length (filter (\<lambda>l. row_ss l \<notin> HELIX \<and> row_ss l \<in> SHEET) rows);
          c = length (filter (\<lambda>l. row_ss l \<notin> HELIX \<and> row_ss l \<notin> SHEET) rows)
      in if rows = [] then Inl AssertionError
         else Inr \<lparr>n_total = length rows, n_helix = h, n_sheet = s, n_coil = c,
                    frac_helix = int_truediv rnd h (length rows),
                    frac_sheet = int_truediv rnd s (length rows),
                    frac_coil = int_truediv rnd c (length rows),
                    mean_ASA = fdiv_nat rnd (py_sum rnd (map (row_asa rnd) rows)) (length rows)\<rparr>)"
  by (rule parse_dssp_counts_rows)

theorem fixed_width_rows_witness:
  "parse_dssp_counts Fin [dssp_header, dssp_row_coil, dssp_row_short, dssp_row_helix_bad]
    = Inr \<lparr>n_total = 2, n_helix = 1, n_sheet = 0, n_coil = 1, frac_helix = Fin (1/2),
       frac_sheet = Fin 0, frac_coil = Fin (1/2), mean_ASA = Fin (203/2)\<rparr>"
  unfolding fixed_width_rows rows_example
  by (simp add: dssp_row_coil_def dssp_row_helix_bad_def row_ss_def row_asa_def row_asa_str_def
    strip_def lstrip_def rstrip_def HELIX_def SHEET_def int_truediv_def py_sum_def float_eval)

text \<open>
  The claim as stated fails: a post-header line of 45 characters holds the code at offset
  16 and the field at offsets 34 to 38, and the parser rejects it.
\<close>

theorem fixed_width_minimum_counterexample:
  "spec_min_length \<le> length dssp_row_short
   \<and> spec_data_rows [dssp_header, dssp_row_short] = [dssp_row_short]
   \<and> parse_dssp_counts Fin [dssp_header, dssp_row_short] = Inl AssertionError"
proof -
  have "data_rows [dssp_header, dssp_row_short] = []"
    by (simp add: dssp_eval)
  then have "parse_dssp_counts Fin [dssp_header, dssp_row_short] = Inl AssertionError"
    by (simp add: parse_dssp_counts_rows)
  moreover have "spec_data_rows [dssp_header, dssp_row_short] = [dssp_row_short]"
    by (simp add: spec_data_rows_def spec_min_length_def dssp_eval)
  ultimately show ?thesis by (simp add: short_len spec_min_length_def)
qed

lemma charge_step_skip:
  "tolerant_charge rnd line = None \<Longrightarrow> charge_step rnd acc line = acc"
  by (simp add: charge_step_def)

lemma unparsable_charge_skipped:
  assumes "charge_token line = Some t" and "py_float rnd t = None"
  shows "tolerant_charge rnd line = None"
  using assms by (auto simp: tolerant_charge_def charge_token_def Let_def split: if_splits)

lemma sum_charge_drop_line:
  assumes "tolerant_charge rnd (rstrip_nl r) = None"
  shows "sum_charge_for_file rnd (Some (pre @ r # post)) = sum_charge_for_file rnd (Some (pre @ post))"
  using assms by (simp add: sum_charge_for_file_def iter_pqr_lines_def charge_step_skip)

text \<open>
  Claim C4. A data row of the secondary-structure table whose exposure field is not a float
  is counted in \<open>n_total\<close> and gives the value 0.0 to the list that is averaged; a line
  of a charge table that starts with ATOM or HETATM and whose charge token is not a float
  changes neither the atom count nor the net charge.
\<close>

theorem coercion_asymmetry:
  assumes "l \<in> set (data_rows lines)" and "py_float rnd (row_asa_str l) = None"
    and "is_pqr_line (rstrip_nl r)" and "charge_token (rstrip_nl r) = Some t"
    and "py_float rnd t = None"
  shows "(\<exists>m. parse_dssp_counts rnd lines = Inr m \<and> n_total m = length (data_rows lines)
            \<and> mean_ASA m
                = fdiv_nat rnd (py_sum rnd (map (row_asa rnd) (data_rows lines))) (n_total m))
       \<and> row_asa rnd l = Fin 0
       \<and> sum_charge_for_file rnd (Some (pre @ r # post))
           = sum_charge_for_file rnd (Some (pre @ post))"
proof -
  have ne: "data_rows lines \<noteq> []" using assms(1) by auto
  have 1: "\<exists>m. parse_dssp_counts rnd lines = Inr m \<and> n_total m = length (data_rows lines)
            \<and> mean_ASA m
                = fdiv_nat rnd (py_sum rnd (map (row_asa rnd) (data_rows lines))) (n_total m)"
    using ne by (simp add: parse_dssp_counts_rows Let_def)
  have 2: "row_asa rnd l = Fin 0"
    using assms(2) by (simp add: row_asa_def Let_def)
  have "tolerant_charge rnd (rstrip_nl r) = None"
    using assms(4,5) by (rule unparsable_charge_skipped)
  then have 3: "sum_charge_for_file rnd (Some (pre @ r # post))
           = sum_charge_for_file rnd (Some (pre @ post))"
    by (rule sum_charge_drop_line)
  show ?thesis using 1 2 3 by blast
qed

lemmas pqr_eval = pqr_atom_def pqr_atom_bad_def is_pqr_line_def startswith_def rstrip_nl_def
  charge_token_def tolerant_charge_def split_ws_def py_isspace_def

lemma ex1: "is_pqr_line (rstrip_nl pqr_atom_bad)"
  by (simp add: pqr_eval)

lemma ex2: "charge_token (rstrip_nl pqr_atom_bad) = Some ''n/a''"
  by (simp add: pqr_eval)

lemma ex3: "py_float rnd ''n/a'' = None"
  by (simp add: float_eval)

lemma ex4: "sum_charge_for_file Fin (Some [pqr_atom]) = (1, Fin (- 415 / 1000))"
  by (simp add: sum_charge_for_file_def iter_pqr_lines_def charge_step_def pqr_eval float_eval)

theorem coercion_asymmetry_witness:
  "parse_dssp_counts Fin [dssp_header, dssp_row_coil, dssp_row_short, dssp_row_helix_bad]
     = Inr \<lparr>n_total = 2, n_helix = 1, n_sheet = 0, n_coil = 1, frac_helix = Fin (1/2),
       frac_sheet = Fin 0, frac_coil = Fin (1/2), mean_ASA = Fin (203/2)\<rparr>
   \<and> row_asa Fin dssp_row_helix_bad = Fin 0
   \<and> sum_charge_for_file Fin (Some [pqr_atom, pqr_atom_bad]) = (1, Fin (- 415 / 1000))"
proof -
  have a: "dssp_row_helix_bad \<in> set (data_rows [dssp_header, dssp_row_coil, dssp_row_short, dssp_row_helix_bad])"
    by (simp add: rows_example)
  note w = coercion_asymmetry [where rnd = Fin and pre = "[pqr_atom]" and post = "[]",
      OF a bad_asa ex1 ex2 ex3]
  have "sum_charge_for_file Fin (Some [pqr_atom, pqr_atom_bad]) = (1, Fin (- 415 / 1000))"
    using w ex4 by simp
  then show ?thesis using w ex_parse by simp
qed

subsection \<open>Rounded fractions\<close>

lemma partition_counts:
  "length (filter P xs) + length (filter (\<lambda>x. \<not> P x \<and> Q x) xs)
     + length (filter (\<lambda>x. \<not> P x \<and> \<not> Q x) xs) = length xs"
  by (induction xs) simp_all

lemma unit_roundoff_bounds: "0 < unit_roundoff" "unit_roundoff \<le> 1 / 2"
  by (simp_all add: unit_roundoff_def)

lemma tiny_pos: "0 < tiny"
  by (simp add: tiny_def)

lemma tiny_normal: "1 / 2 ^ 1022 \<le> tiny"
  unfolding tiny_def by (intro divide_left_mono power_increasing) simp_all

lemma tiny_count:
  assumes "0 < n" and "n < 2 ^ 63"
  shows "4 * tiny \<le> 1 / real n"
proof -
  have "real n \<le> 2 ^ 63"
    using assms(2) by (metis less_imp_le of_nat_le_iff of_nat_numeral of_nat_power)
  then have "1 / 2 ^ 63 \<le> 1 / real n"
    using assms(1) by (intro divide_left_mono) simp_all
  moreover have "4 * tiny = 1 / 2 ^ 63" by (simp add: tiny_def)
  ultimately show ?thesis by simp
qed

lemma rel_rounding_zero:
  assumes "rel_rounding rnd"
  shows "rnd 0 = Fin 0"
proof -
  obtain y where "rnd 0 = Fin y" and "\<bar>y - 0\<bar> \<le> 0 * unit_roundoff"
    using assms unfolding rel_rounding_def by blast
  then show ?thesis by simp
qed

lemma rel_rounding_normal:
  assumes "rel_rounding rnd" and "tiny \<le> x" and "x \<le> 8"
  obtains y where "rnd x = Fin y" and "\<bar>y - x\<bar> \<le> x * unit_roundoff" and "x \<le> 2 * y"
    and "y \<le> 2 * x"
proof -
  have lo: "1 / 2 ^ 1022 \<le> x" using assms(2) tiny_normal by linarith
  have "(8::real) = 2 ^ 3" by simp
  also have "\<dots> \<le> 2 ^ 1023" by (intro power_increasing) simp_all
  finally have hi: "x \<le> 2 ^ 1023" using assms(3) by linarith
  obtain y where y: "rnd x = Fin y" "\<bar>y - x\<bar> \<le> x * unit_roundoff"
    using assms(1) lo hi unfolding rel_rounding_def by blast
  have "0 \<le> x" using assms(2) tiny_pos by linarith
  then have "x * unit_roundoff \<le> x * (1 / 2)"
    by (intro mult_left_mono unit_roundoff_bounds)
  then have "x \<le> 2 * y" and "y \<le> 2 * x" using y(2) by linarith+
  then show ?thesis using y that by blast
qed

lemma sum_bound:
  fixes u A B C a b c t s :: real
  assumes u: "0 \<le> u" "u \<le> 1"
    and nn: "0 \<le> A" "0 \<le> B" "0 \<le> C" and one: "A + B + C = 1"
    and a: "\<bar>a - A\<bar> \<le> A * u" and b: "\<bar>b - B\<bar> \<le> B * u" and c: "\<bar>c - C\<bar> \<le> C * u"
    and t: "\<bar>t - (a + b)\<bar> \<le> (a + b) * u" and s: "\<bar>s - (t + c)\<bar> \<le> (t + c) * u"
  shows "\<bar>s - 1\<bar> \<le> 7 * u"
proof -
  have eq: "A * u + B * u + C * u = u"
    using one by (metis distrib_right mult_1)
  have Cu: "0 \<le> C * u" using nn(3) u(1) by (rule mult_nonneg_nonneg)
  have AB: "A * u + B * u \<le> u"
    using Cu eq by linarith
  have ab: "a + b \<le> 2"
  proof -
    have "a + b \<le> A + B + (A * u + B * u)" using a b by linarith
    also have "\<dots> \<le> 1 + u" using AB nn(3) one by linarith
    finally show ?thesis using u(2) by simp
  qed
  have "(a + b) * u \<le> 2 * u" using ab u(1) by (rule mult_right_mono)
  then have t2: "\<bar>t - (a + b)\<bar> \<le> 2 * u" using t by linarith
  have abc: "\<bar>a - A\<bar> + \<bar>b - B\<bar> + \<bar>c - C\<bar> \<le> u" using a b c eq by linarith
  have tc: "\<bar>t + c - 1\<bar> \<le> 3 * u" using t2 abc one by linarith
  have "t + c \<le> 4" using tc u(2) by linarith
  then have "(t + c) * u \<le> 4 * u" using u(1) by (rule mult_right_mono)
  then have "\<bar>s - (t + c)\<bar> \<le> 4 * u" using s by linarith
  then show ?thesis using tc by linarith
qed

lemma frac_rounded:
  assumes "rel_rounding rnd" and "k \<le> n" and "0 < n" and "n < 2 ^ 63"
  obtains f where "int_truediv rnd k n = Fin f"
    and "\<bar>f - real k / real n\<bar> \<le> (real k / real n) * unit_roundoff"
    and "0 \<le> f" and "f \<le> 2 * (real k / real n)" and "k = 0 \<or> 2 * tiny \<le> f"
proof (cases "k = 0")
  case True
  then have "int_truediv rnd k n = Fin 0"
    using assms(1) by (simp add: int_truediv_def rel_rounding_zero)
  then show ?thesis using True that by simp
next
  case False
  let ?x = "real k / real n"
  have "1 / real n \<le> ?x"
    using False assms(3) by (intro divide_right_mono) simp_all
  then have lo4: "4 * tiny \<le> ?x" using tiny_count [OF assms(3,4)] by linarith
  then have lo: "tiny \<le> ?x" using tiny_pos by linarith
  have "?x \<le> 1" using assms(2,3) by simp
  then have hi: "?x \<le> 8" by simp
  obtain y where y: "rnd ?x = Fin y" "\<bar>y - ?x\<bar> \<le> ?x * unit_roundoff" "?x \<le> 2 * y"
      "y \<le> 2 * ?x"
    using rel_rounding_normal [OF assms(1) lo hi] by blast
  have "2 * tiny \<le> y" using y(3) lo4 by linarith
  moreover have "0 \<le> y" using calculation tiny_pos by linarith
  ultimately show ?thesis using y that by (simp add: int_truediv_def)
qed

lemma fractions_sum:
  assumes rr: "rel_rounding rnd" and sum: "h + s + c = n" and n: "0 < n" "n < 2 ^ 63"
  shows "\<exists>r. fadd rnd (fadd rnd (int_truediv rnd h n) (int_truediv rnd s n))
              (int_truediv rnd c n) = Fin r \<and> \<bar>r - 1\<bar> \<le> 7 * unit_roundoff"
proof -
  let ?A = "real h / real n" and ?B = "real s / real n" and ?C = "real c / real n"
  have le: "h \<le> n" "s \<le> n" "c \<le> n" using sum by simp_all
  have nn: "0 \<le> ?A" "0 \<le> ?B" "0 \<le> ?C" by simp_all
  have "real h + real s + real c = real n" using sum by (metis of_nat_add)
  then have one: "?A + ?B + ?C = 1"
    using n(1) by (simp add: add_divide_distrib [symmetric])
  obtain a where a: "int_truediv rnd h n = Fin a" "\<bar>a - ?A\<bar> \<le> ?A * unit_roundoff"
      "0 \<le> a" "a \<le> 2 * ?A" "h = 0 \<or> 2 * tiny \<le> a"
    using frac_rounded [OF rr le(1) n] by blast
  obtain b where b: "int_truediv rnd s n = Fin b" "\<bar>b - ?B\<bar> \<le> ?B * unit_roundoff"
      "0 \<le> b" "b \<le> 2 * ?B" "s = 0 \<or> 2 * tiny \<le> b"
    using frac_rounded [OF rr le(2) n] by blast
  obtain c' where c: "int_truediv rnd c n = Fin c'" "\<bar>c' - ?C\<bar> \<le> ?C * unit_roundoff"
      "0 \<le> c'" "c' \<le> 2 * ?C" "c = 0 \<or> 2 * tiny \<le> c'"
    using frac_rounded [OF rr le(3) n] by blast
  have ab2: "a + b \<le> 2" using a(4) b(4) one nn(3) by linarith
  have c2: "c' \<le> 2" using c(4) one nn(1,2) by linarith
  have "\<exists>t. rnd (a + b) = Fin t \<and> \<bar>t - (a + b)\<bar> \<le> (a + b) * unit_roundoff
          \<and> 0 \<le> t \<and> t \<le> 4 \<and> (a + b = 0 \<or> tiny \<le> t)"
  proof (cases "a + b = 0")
    case True
    then show ?thesis using rr by (simp add: rel_rounding_zero)
  next
    case False
    have "\<not> (h = 0 \<and> s = 0)"
    proof
      assume z: "h = 0 \<and> s = 0"
      have "a = 0" using z a(3,4) by simp
      moreover have "b = 0" using z b(3,4) by simp
      ultimately show False using False by simp
    qed
    then have "2 * tiny \<le> a \<or> 2 * tiny \<le> b" using a(5) b(5) by blast
    then have ab64: "2 * tiny \<le> a + b" using a(3) b(3) by linarith
    then have lo: "tiny \<le> a + b" using tiny_pos by linarith
    have hi: "a + b \<le> 8" using ab2 by simp
    obtain t where t: "rnd (a + b) = Fin t" "\<bar>t - (a + b)\<bar> \<le> (a + b) * unit_roundoff"
        "a + b \<le> 2 * t" "t \<le> 2 * (a + b)"
      using rel_rounding_normal [OF rr lo hi] by blast
    have t': "a + b \<le> t + t" "t \<le> a + b + (a + b)" using t(3,4) by simp_all
    have "0 \<le> t" using t'(1) a(3) b(3) by linarith
    moreover have "t \<le> 4" using t'(2) ab2 by linarith
    moreover have "tiny \<le> t" using t'(1) ab64 by linarith
    ultimately show ?thesis using t(1,2) by blast
  qed
  then obtain t where t: "rnd (a + b) = Fin t" "\<bar>t - (a + b)\<bar> \<le> (a + b) * unit_roundoff"
      "0 \<le> t" "t \<le> 4" "a + b = 0 \<or> tiny \<le> t"
    by blast
  have lo: "tiny \<le> t + c'"
  proof (cases "a + b = 0")
    case True
    then have z: "a = 0" "b = 0" using a(3) b(3) by linarith+
    have "\<not> 2 * tiny \<le> 0" using tiny_pos by linarith
    then have "h = 0" "s = 0" using a(5) b(5) z by auto
    then have "c \<noteq> 0" using sum n(1) by simp
    then have "2 * tiny \<le> c'" using c(5) by simp
    then show ?thesis using t(3) tiny_pos by linarith
  next
    case False
    then have "tiny \<le> t" using t(5) by simp
    then show ?thesis using c(3) by linarith
  qed
  have hi: "t + c' \<le> 8" using t(4) c2 by linarith
  obtain r where r: "rnd (t + c') = Fin r" "\<bar>r - (t + c')\<bar> \<le> (t + c') * unit_roundoff"
    using rel_rounding_normal [OF rr lo hi] by blast
  have u: "0 \<le> unit_roundoff" "unit_roundoff \<le> 1"
    using unit_roundoff_bounds by simp_all
  have "\<bar>r - 1\<bar> \<le> 7 * unit_roundoff"
    using sum_bound [OF u nn one a(2) b(2) c(2) t(2) r(2)] .
  moreover have "fadd rnd (fadd rnd (int_truediv rnd h n) (int_truediv rnd s n))
              (int_truediv rnd c n) = Fin r"
    by (simp add: a(1) b(1) c(1) t(1) r(1))
  ultimately show ?thesis by blast
qed

lemma seven_roundoffs: "7 * unit_roundoff \<le> 1 / 10 ^ 9"
  by (simp add: unit_roundoff_def)


lemma data_rows_length: "length (data_rows lines) \<le> length lines"
proof -
  have "length (data_rows lines) \<le> length (post_header lines)"
    unfolding data_rows_def by (rule length_filter_le)
  also have "\<dots> \<le> length (dropWhile (\<lambda>l. \<not> is_header l) lines)"
    by (simp add: post_header_def)
  also have "\<dots> \<le> length lines" by (rule length_dropWhile_le)
  finally show ?thesis .
qed

lemma rel_rounding_exact: "rel_rounding Fin"
proof -
  have "\<bar>x - x\<bar> \<le> x * unit_roundoff" if "x = 0 \<or> (1 / 2 ^ 1022 \<le> x \<and> x \<le> 2 ^ 1023)" for x :: real
  proof -
    have "(0::real) \<le> 1 / 2 ^ 1022" by (intro divide_nonneg_nonneg zero_le_power) simp_all
    then have "0 \<le> x" using that by linarith
    then have "0 \<le> x * unit_roundoff"
      using unit_roundoff_bounds(1) by (intro mult_nonneg_nonneg) simp_all
    then show ?thesis by simp
  qed
  then show ?thesis unfolding rel_rounding_def by blast
qed

lemma round_half_even_near:
  assumes "0 \<le> r"
  shows "\<bar>real (round_half_even r) - r\<bar> \<le> 1 / 2"
proof -
  define f where "f = nat \<lfloor>r\<rfloor>"
  define d where "d = r - real f"
  have "real f = of_int \<lfloor>r\<rfloor>" using assms by (simp add: f_def)
  then have "real f \<le> r" and "r < real f + 1" by linarith+
  then have d: "0 \<le> d" "d < 1" by (simp_all add: d_def)
  have v: "round_half_even r = (if d < 1 / 2 then f else if 1 / 2 < d then f + 1
      else if even f then f else f + 1)"
    by (simp only: round_half_even_def Let_def f_def d_def)
  have dd: "d = r - real f" by (rule d_def)
  consider "d < 1 / 2" | "1 / 2 < d" | "d = 1 / 2" by linarith
  then show ?thesis
  proof cases
    case 1
    then have e: "real (round_half_even r) = real f" by (simp add: v)
    show ?thesis unfolding e using 1 d dd by linarith
  next
    case 2
    then have e: "real (round_half_even r) = real f + 1" by (simp add: v)
    show ?thesis unfolding e using 2 d dd by linarith
  next
    case 3
    then have "real (round_half_even r) = real f \<or> real (round_half_even r) = real f + 1"
      by (simp add: v)
    then show ?thesis
    proof
      assume e: "real (round_half_even r) = real f"
      show ?thesis unfolding e using 3 dd by linarith
    next
      assume e: "real (round_half_even r) = real f + 1"
      show ?thesis unfolding e using 3 dd by linarith
    qed
  qed
qed


lemma pow_bounds:
  "(1::real) / 2 ^ 1022 = 2 powr (- 1022)" "(2::real) ^ 1023 = 2 powr 1023"
  "(2::real) * 2 powr 1023 = 2 powr 1024"
proof -
  have a: "(2::real) powr (real n) = 2 ^ n" for n by (rule powr_realpow) simp
  have "(2::real) powr (- real 1022) = 1 / 2 powr (real 1022)"
    by (simp only: powr_minus_divide)
  then show "(1::real) / 2 ^ 1022 = 2 powr (- 1022)" unfolding a by simp
  show "(2::real) ^ 1023 = 2 powr 1023" using a [of 1023] by simp
  have "(2::real) powr 1024 = 2 powr (1 + 1023)" by simp
  also have "\<dots> = 2 powr 1 * 2 powr 1023" by (simp only: powr_add)
  finally show "(2::real) * 2 powr 1023 = 2 powr 1024" by simp
qed


lemma exponent_lower:
  assumes "0 < x" and "2 powr real_of_int a \<le> x"
  shows "a \<le> \<lfloor>log 2 x\<rfloor>"
proof -
  have "real_of_int a \<le> log 2 x"
    using assms le_log_iff [of 2 x "real_of_int a"] by simp
  then show ?thesis by (simp only: le_floor_iff)
qed

lemma exponent_power:
  assumes "0 < x"
  shows "2 powr real_of_int \<lfloor>log 2 x\<rfloor> \<le> x"
proof -
  have "real_of_int \<lfloor>log 2 x\<rfloor> \<le> log 2 x" by (rule of_int_floor_le)
  then show ?thesis using assms le_log_iff [of 2 x "real_of_int \<lfloor>log 2 x\<rfloor>"] by simp
qed


lemma binary64_normal:
  assumes "1 / 2 ^ 1022 \<le> x" and "x \<le> 2 ^ 1023"
  shows "\<exists>y. round_binary64 x = Fin y \<and> \<bar>y - x\<bar> \<le> x * unit_roundoff"
proof -
  have lo': "2 powr (- 1022) \<le> x" using assms(1) by (simp only: pow_bounds(1))
  have hi': "x \<le> 2 powr 1023" using assms(2) by (simp only: pow_bounds(2))
  have "(0::real) < 2 powr (- 1022)" by simp
  then have pos: "0 < x" using lo' by linarith
  define e where "e = \<lfloor>log 2 x\<rfloor>"
  have "2 powr real_of_int (- 1022) \<le> x" using lo' by simp
  then have e_lo: "- 1022 \<le> e" unfolding e_def using pos by (intro exponent_lower)
  have e_pow: "2 powr real_of_int e \<le> x" unfolding e_def using pos by (rule exponent_power)
  define q where "q = 2 powr real_of_int (e - 52)"
  have q: "0 < q" by (simp add: q_def)
  define m where "m = round_half_even (x / q)"
  have "0 \<le> x / q" using pos q by simp
  then have "\<bar>real m - x / q\<bar> \<le> 1 / 2"
    unfolding m_def by (rule round_half_even_near)
  then have "\<bar>real m - x / q\<bar> * q \<le> (1 / 2) * q"
    using q by (intro mult_right_mono) simp_all
  moreover have "\<bar>real m - x / q\<bar> * q = \<bar>(real m - x / q) * q\<bar>"
    using q by (simp add: abs_mult)
  moreover have "(real m - x / q) * q = real m * q - x"
    using q by (simp add: left_diff_distrib)
  ultimately have err: "\<bar>real m * q - x\<bar> \<le> q / 2" by simp
  have q53: "q / 2 = 2 powr real_of_int e * unit_roundoff"
  proof -
    have "real_of_int (e - 52) = real_of_int e + (- 52)" by simp
    then have "q = 2 powr real_of_int e * 2 powr (- 52)"
      unfolding q_def by (simp only: powr_add)
    moreover have "(2::real) powr (- 52) = 1 / 2 ^ 52"
    proof -
      have "(2::real) powr (- real 52) = 1 / 2 powr (real 52)" by (simp only: powr_minus_divide)
      also have "\<dots> = 1 / 2 ^ 52" using powr_realpow [of 2 52] by simp
      finally show ?thesis by simp
    qed
    ultimately have a: "q / 2 = 2 powr real_of_int e * ((1 / 2 ^ 52) / 2)" by simp
    have b: "((1::real) / 2 ^ 52) / 2 = unit_roundoff" by (simp add: unit_roundoff_def)
    show ?thesis by (simp only: a b)
  qed
  have u: "0 \<le> unit_roundoff" "unit_roundoff < 1" by (simp_all add: unit_roundoff_def)
  have "q / 2 \<le> x * unit_roundoff"
    unfolding q53 using e_pow u(1) by (rule mult_right_mono)
  then have bound: "\<bar>real m * q - x\<bar> \<le> x * unit_roundoff" using err by linarith
  have "x * unit_roundoff < x * 1"
    using u(2) pos by (rule mult_strict_left_mono)
  then have "real m * q < x + x" using bound by linarith
  also have "\<dots> \<le> 2 powr 1023 + 2 powr 1023" using hi' by linarith
  also have "\<dots> = 2 powr 1024" using pow_bounds(3) by linarith
  finally have lt: "\<not> 2 powr 1024 \<le> real m * q" by simp
  have ax: "\<bar>x\<bar> = x" "x \<noteq> 0" "\<not> x < 0" using pos by simp_all
  have mx: "max \<lfloor>log 2 x\<rfloor> (- 1022) = e" using e_lo by (simp add: e_def)
  have "round_binary64 x = Fin (real m * q)"
    unfolding round_binary64_def ax(1) mx Let_def q_def [symmetric] m_def [symmetric]
    using lt ax(2,3) by simp
  then show ?thesis using bound by blast
qed

lemma rel_rounding_binary64: "rel_rounding round_binary64"
proof -
  have "\<exists>y. round_binary64 x = Fin y \<and> \<bar>y - x\<bar> \<le> x * unit_roundoff"
    if "x = 0 \<or> (1 / 2 ^ 1022 \<le> x \<and> x \<le> 2 ^ 1023)" for x
  proof (cases "x = 0")
    case True
    then show ?thesis by (simp add: round_binary64_def)
  next
    case False
    then show ?thesis using that binary64_normal by blast
  qed
  then show ?thesis unfolding rel_rounding_def by blast
qed

text \<open>
  Claim C1. When the parser accepts a table (it returns a record, so at least one row was
  counted), the three bucket counts add up to \<open>n_total\<close>, and the three fractions, added
  as floats from the left, give a finite float within \<open>1e-9\<close> of 1. The floats are any
  format whose rounding has a relative error of at most \<open>2^-53\<close> (\<open>rel_rounding\<close>, which
  binary64 satisfies); the table has fewer than \<open>2^63\<close> lines, as every Python list has.
\<close>

theorem partition_and_fractions:
  assumes "rel_rounding rnd" and "length lines < 2 ^ 63"
    and "parse_dssp_counts rnd lines = Inr m"
  shows "n_helix m + n_sheet m + n_coil m = n_total m
       \<and> (\<exists>r. fadd rnd (fadd rnd (frac_helix m) (frac_sheet m)) (frac_coil m) = Fin r
              \<and> \<bar>r - 1\<bar> \<le> 1 / 10 ^ 9)"
proof -
  let ?rows = "data_rows lines"
  let ?h = "length (filter (\<lambda>l. row_ss l \<in> HELIX) ?rows)"
  let ?s = "length (filter (\<lambda>l. row_ss l \<notin> HELIX \<and> row_ss l \<in> SHEET) ?rows)"
  let ?c = "length (filter (\<lambda>l. row_ss l \<notin> HELIX \<and> row_ss l \<notin> SHEET) ?rows)"
  let ?n = "length ?rows"
  have ne: "?rows \<noteq> []"
    using assms(3) by (auto simp: parse_dssp_counts_rows Let_def split: if_splits)
  then have m: "m = \<lparr>n_total = ?n, n_helix = ?h, n_sheet = ?s, n_coil = ?c,
                    frac_helix = int_truediv rnd ?h ?n,
                    frac_sheet = int_truediv rnd ?s ?n,
                    frac_coil = int_truediv rnd ?c ?n,
                    mean_ASA = fdiv_nat rnd (py_sum rnd (map (row_asa rnd) ?rows)) ?n\<rparr>"
    using assms(3) by (simp add: parse_dssp_counts_rows Let_def)
  have sum: "?h + ?s + ?c = ?n" by (rule partition_counts)
  have pos: "0 < ?n" using ne by simp
  have "?n \<le> length lines" by (rule data_rows_length)
  then have small: "?n < 2 ^ 63" using assms(2) by linarith
  obtain r where r: "fadd rnd (fadd rnd (int_truediv rnd ?h ?n) (int_truediv rnd ?s ?n))
              (int_truediv rnd ?c ?n) = Fin r" "\<bar>r - 1\<bar> \<le> 7 * unit_roundoff"
    using fractions_sum [OF assms(1) sum pos small] by blast
  have "\<bar>r - 1\<bar> \<le> 1 / 10 ^ 9" using r(2) seven_roundoffs by linarith
  then have "\<exists>r. fadd rnd (fadd rnd (frac_helix m) (frac_sheet m)) (frac_coil m) = Fin r
              \<and> \<bar>r - 1\<bar> \<le> 1 / 10 ^ 9"
    using r(1) by (subst m, subst m, subst m) auto
  moreover have "n_helix m + n_sheet m + n_coil m = n_total m"
    using sum by (subst m, subst m, subst m, subst m) simp
  ultimately show ?thesis by blast
qed

theorem partition_and_fractions_witness:
  "rel_rounding round_binary64
   \<and> (\<exists>m. parse_dssp_counts round_binary64
            [dssp_header, dssp_row_coil, dssp_row_short, dssp_row_helix_bad] = Inr m
          \<and> n_total m = 2
          \<and> n_helix m + n_sheet m + n_coil m = n_total m
          \<and> (\<exists>r. fadd round_binary64 (fadd round_binary64 (frac_helix m) (frac_sheet m))
                    (frac_coil m) = Fin r \<and> \<bar>r - 1\<bar> \<le> 1 / 10 ^ 9))"
proof -
  let ?lines = "[dssp_header, dssp_row_coil, dssp_row_short, dssp_row_helix_bad]"
  have len: "length ?lines < 2 ^ 63" by simp
  have "\<exists>m. parse_dssp_counts round_binary64 ?lines = Inr m \<and> n_total m = 2"
    by (simp add: parse_dssp_counts_rows rows_example)
  then obtain m where p: "parse_dssp_counts round_binary64 ?lines = Inr m" and n: "n_total m = 2"
    by blast
  show ?thesis
    using partition_and_fractions [OF rel_rounding_binary64 len p] rel_rounding_binary64 p n
    by blast
qed

subsection \<open>The loops of the charge parsers\<close>

lemma tolerant_charge_eq:
  "tolerant_charge rnd line = (if counted_line rnd line then charge_of rnd line else None)"
  by (auto simp: tolerant_charge_def counted_line_def charge_of_def charge_token_def Let_def)

lemma charge_fold:
  "foldl (charge_step rnd) acc ls
     = (fst acc + length (filter (counted_line rnd) ls),
        foldl (fadd rnd) (snd acc) (List.map_filter (charge_of rnd) (filter (counted_line rnd) ls)))"
proof (induction ls arbitrary: acc)
  case Nil
  then show ?case by (simp add: List.map_filter_simps)
next
  case (Cons l ls)
  show ?case
  proof (cases "counted_line rnd l")
    case True
    then obtain c where c: "charge_of rnd l = Some c"
      by (auto simp: counted_line_def)
    then have "charge_step rnd acc l = (fst acc + 1, fadd rnd (snd acc) c)"
      using True by (simp add: charge_step_def tolerant_charge_eq)
    then show ?thesis using True c Cons.IH by (simp add: List.map_filter_simps)
  next
    case False
    then have "charge_step rnd acc l = acc"
      by (simp add: charge_step_def tolerant_charge_eq)
    then show ?thesis using False Cons.IH by simp
  qed
qed

lemma sum_charge_rows:
  "sum_charge_for_file rnd (Some lines)
     = (length (filter (counted_line rnd) (map rstrip_nl lines)),
        foldl (fadd rnd) (Fin 0)
          (List.map_filter (charge_of rnd) (filter (counted_line rnd) (map rstrip_nl lines))))"
  by (simp add: sum_charge_for_file_def iter_pqr_lines_def charge_fold)

text \<open>
  Claim C5, as amended. For every charge table, \<open>sum_charge_for_file\<close> returns as atom count
  the number of lines that begin with ATOM or HETATM, have at least eight whitespace
  tokens, and whose second-to-last token \<open>float\<close> accepts; the net charge is the sum, from
  0.0 and in file order, of the charges of exactly these lines.
\<close>

theorem atom_count:
  "sum_charge_for_file rnd (Some lines)
     = (length (filter (counted_line rnd) (map rstrip_nl lines)),
        foldl (fadd rnd) (Fin 0)
          (List.map_filter (charge_of rnd) (filter (counted_line rnd) (map rstrip_nl lines))))"
  by (rule sum_charge_rows)

lemmas pqr_eval2 = pqr_eval pqr_truncated_def pqr_legacy_def pqr_swapped_def
  counted_line_def spec_counted_def charge_of_def legacy_charge_def

theorem atom_count_witness:
  "sum_charge_for_file Fin (Some [pqr_atom, pqr_truncated, pqr_atom_bad]) = (1, Fin (- 415 / 1000))"
proof -
  have "filter (counted_line Fin) (map rstrip_nl [pqr_atom, pqr_truncated, pqr_atom_bad])
      = [rstrip_nl pqr_atom]"
    by (simp add: pqr_eval2 float_eval)
  moreover have "charge_of Fin (rstrip_nl pqr_atom) = Some (Fin (- 415 / 1000))"
    by (simp add: pqr_eval2 float_eval)
  ultimately show ?thesis
    unfolding atom_count by (simp add: List.map_filter_simps)
qed

text \<open>
  The claim as stated fails: a truncated ATOM line of five tokens has a second-to-last
  token that parses, and the guard on the number of tokens leaves it out of the count.
\<close>

theorem atom_count_counterexample:
  "length (filter (spec_counted Fin) (map rstrip_nl [pqr_truncated])) = 1
   \<and> fst (sum_charge_for_file Fin (Some [pqr_truncated])) = 0"
proof -
  have a: "filter (spec_counted Fin) (map rstrip_nl [pqr_truncated]) = [rstrip_nl pqr_truncated]"
    by (simp add: pqr_eval2 float_eval)
  have b: "filter (counted_line Fin) (map rstrip_nl [pqr_truncated]) = []"
    by (simp add: pqr_eval2)
  have "length (filter (spec_counted Fin) (map rstrip_nl [pqr_truncated])) = 1"
    by (simp only: a, simp)
  moreover have "fst (sum_charge_for_file Fin (Some [pqr_truncated])) = 0"
    by (simp only: sum_charge_rows b, simp)
  ultimately show ?thesis by blast
qed

text \<open>
  Claim C3, as amended. The legacy parser (token index 9) on a line of eleven tokens that
  ends with the charge -0.415 and the radius 1.8750, and the tolerant parser (second-to-last
  token) on that line and on the ten-token line without the chain column, which ends with
  the same two tokens, all extract the float of \<open>-0.415\<close>.
\<close>

theorem same_charge:
  "legacy_charge rnd pqr_legacy = Some (rnd (- 415 / 1000))
   \<and> tolerant_charge rnd (rstrip_nl pqr_legacy) = Some (rnd (- 415 / 1000))
   \<and> tolerant_charge rnd (rstrip_nl pqr_atom) = Some (rnd (- 415 / 1000))
   \<and> py_float rnd ''-0.415'' = Some (rnd (- 415 / 1000))"
  by (simp add: pqr_eval2 float_eval)

theorem same_charge_witness:
  "legacy_charge round_binary64 pqr_legacy = Some (round_binary64 (- 415 / 1000))
   \<and> tolerant_charge round_binary64 (rstrip_nl pqr_atom) = Some (round_binary64 (- 415 / 1000))"
  using same_charge [of round_binary64] by simp

text \<open>
  The claim as stated fails: on a line that ends with \<open>1.8750 -0.415\<close>, the example the
  tolerant layout is given with, the second-to-last token is the radius, and the tolerant
  parser extracts 1.875.
\<close>

theorem same_charge_counterexample:
  "tolerant_charge Fin (rstrip_nl pqr_swapped) = Some (Fin (15 / 8))
   \<and> tolerant_charge Fin (rstrip_nl pqr_swapped) \<noteq> py_float Fin ''-0.415''"
  by (simp add: pqr_eval2 float_eval)

subsection \<open>Files without a parsed row\<close>

lemma digits_of_small: "n < 10 \<Longrightarrow> digits_of n = [digit_char n]"
  by (subst digits_of.simps) simp

lemma digits_of_large:
  "\<not> n < 10 \<Longrightarrow> digits_of n = digits_of (n div 10) @ [digit_char (n mod 10)]"
  by (subst digits_of.simps) simp

lemma frac_digits_3:
  "frac_digits 3 n
     = [digit_char (n div 10 div 10 mod 10), digit_char (n div 10 mod 10), digit_char (n mod 10)]"
  by (simp add: numeral_3_eq_3)

lemma format_zero: "format_f 3 (Fin 0) = ''0.000''"
  by (simp add: format_f_def round_half_even_def digit_char_def frac_digits_3 digits_of_small)

lemma no_atoms_total:
  assumes "fst (sum_charge_for_file rnd content) = 0"
  shows "sum_charge_for_file rnd content = (0, Fin 0)"
proof (cases content)
  case None
  then show ?thesis by (simp add: sum_charge_for_file_def iter_pqr_lines_def)
next
  case (Some lines)
  have "length (filter (counted_line rnd) (map rstrip_nl lines)) = 0"
    using assms unfolding Some sum_charge_rows by (simp only: fst_conv)
  then have "filter (counted_line rnd) (map rstrip_nl lines) = []"
    by (simp only: length_0_conv)
  then show ?thesis
    unfolding Some sum_charge_rows by (simp only: list.size List.map_filter_simps foldl.simps)
qed

lemma legacy_no_charge:
  "\<forall>l\<in>set ls. legacy_charge rnd l = None \<Longrightarrow> foldl (legacy_step rnd) t ls = t"
  by (induction ls) (simp_all add: legacy_step_def)

lemma process_group_no_rows:
  assumes "prefer_alphaFold paths = Inr chosen" and "env chosen = DsspFile lines"
    and "data_rows lines = []"
  shows "process_group rnd ref2abbr abbr2status env (refseq, paths)
           = Skipped (SkipParse (basename chosen))"
  using assms by (simp add: process_group_def parse_dssp_counts_rows)

lemma process_group_row:
  assumes "process_group rnd ref2abbr abbr2status env g = Row r"
  shows "0 < n_total r"
proof -
  obtain chosen where ch: "prefer_alphaFold (snd g) = Inr chosen"
    using assms by (cases "prefer_alphaFold (snd g)") (simp_all add: process_group_def)
  obtain lines where ls: "env chosen = DsspFile lines"
    using assms ch by (cases "env chosen") (simp_all add: process_group_def)
  obtain m where m: "parse_dssp_counts rnd lines = Inr m"
    using assms ch ls by (cases "parse_dssp_counts rnd lines") (simp_all add: process_group_def)
  have "0 < n_total m"
    using m by (auto simp: parse_dssp_counts_rows Let_def split: if_splits)
  moreover have "n_total r = n_total m"
    using assms ch ls m by (auto simp: process_group_def Let_def metrics.defs)
  ultimately show ?thesis by simp
qed

lemma main_loop_rows:
  "main_loop rnd ref2abbr abbr2status env gs = Inr (records, logged)
     \<Longrightarrow> \<forall>r\<in>set records. 0 < n_total r"
proof (induction gs arbitrary: records logged)
  case Nil
  then show ?case by simp
next
  case (Cons g gs)
  show ?case
  proof (cases "process_group rnd ref2abbr abbr2status env g")
    case (Crash e)
    then show ?thesis using Cons.prems by simp
  next
    case (Skipped d)
    then obtain logged' where "main_loop rnd ref2abbr abbr2status env gs = Inr (records, logged')"
      using Cons.prems by (auto split: sum.splits)
    then show ?thesis by (rule Cons.IH)
  next
    case (Row r)
    then obtain records' where rest: "main_loop rnd ref2abbr abbr2status env gs = Inr (records', logged)"
        and recs: "records = r # records'"
      using Cons.prems by (auto split: sum.splits)
    have "\<forall>r\<in>set records'. 0 < n_total r" using rest by (rule Cons.IH)
    moreover have "0 < n_total r" using Row by (rule process_group_row)
    ultimately show ?thesis using recs by simp
  qed
qed


text \<open>
  Claim C2, as amended. A secondary-structure table with no data row makes the parser
  raise: \<open>dssp_batch_summary.main\<close> skips the entity with the diagnostic
  \<open>Skipping (parse failed)\<close>, and every record it keeps has a positive \<open>n_total\<close>. A charge
  table with no parsed row is not a failure: \<open>sum_pqr_chargesv3.main\<close> and
  \<open>sum_pqr_charges.main\<close> both write its row, with the net charge \<open>0.000\<close>.
\<close>

theorem zero_rows:
  assumes "prefer_alphaFold paths = Inr chosen" and "env chosen = DsspFile lines"
    and "data_rows lines = []"
    and "fst (sum_charge_for_file rnd content) = 0"
    and "\<forall>l\<in>set pqr_lines. legacy_charge rnd l = None"
  shows "process_group rnd ref2abbr abbr2status env (refseq, paths)
           = Skipped (SkipParse (basename chosen))
       \<and> main_loop rnd ref2abbr abbr2status env ((refseq, paths) # gs)
           = (case main_loop rnd ref2abbr abbr2status env gs of
                Inl e \<Rightarrow> Inl e
              | Inr (records, logged) \<Rightarrow> Inr (records, SkipParse (basename chosen) # logged))
       \<and> (\<forall>records logged. main_loop rnd ref2abbr abbr2status env gs = Inr (records, logged)
              \<longrightarrow> (\<forall>r\<in>set records. 0 < n_total r))
       \<and> v3_rows rnd 3 True [(path, content)] = [[basename path, ''0.000'']]
       \<and> legacy_line rnd (path, pqr_lines)
           = basename path @ [CHR 0x09] @ ''NetCharge=0.000'' @ [CHR 0x0A]"
proof -
  have 1: "process_group rnd ref2abbr abbr2status env (refseq, paths)
           = Skipped (SkipParse (basename chosen))"
    using assms(1-3) by (rule process_group_no_rows)
  have 2: "main_loop rnd ref2abbr abbr2status env ((refseq, paths) # gs)
           = (case main_loop rnd ref2abbr abbr2status env gs of
                Inl e \<Rightarrow> Inl e
              | Inr (records, logged) \<Rightarrow> Inr (records, SkipParse (basename chosen) # logged))"
    by (simp add: 1)
  have 3: "\<forall>records logged. main_loop rnd ref2abbr abbr2status env gs = Inr (records, logged)
              \<longrightarrow> (\<forall>r\<in>set records. 0 < n_total r)"
    using main_loop_rows by blast
  have "sum_charge_for_file rnd content = (0, Fin 0)"
    using assms(4) by (rule no_atoms_total)
  then have 4: "v3_rows rnd 3 True [(path, content)] = [[basename path, ''0.000'']]"
    by (simp add: v3_rows_def format_zero)
  have "legacy_total rnd pqr_lines = Fin 0"
    unfolding legacy_total_def using assms(5) by (rule legacy_no_charge)
  then have 5: "legacy_line rnd (path, pqr_lines)
           = basename path @ [CHR 0x09] @ ''NetCharge=0.000'' @ [CHR 0x0A]"
    by (simp add: legacy_line_def format_zero)
  show ?thesis using 1 2 3 4 5 by blast
qed

lemma no_atoms_v3: "sum_charge_for_file rnd (Some pqr_no_atoms) = (0, Fin 0)"
  by (simp add: sum_charge_for_file_def iter_pqr_lines_def charge_step_def pqr_no_atoms_def
    tolerant_charge_def is_pqr_line_def startswith_def rstrip_nl_def)

lemma no_atoms_legacy: "\<forall>l\<in>set pqr_no_atoms. legacy_charge rnd l = None"
  by (simp add: pqr_no_atoms_def legacy_charge_def startswith_def)

lemma basename_example: "basename ''pqr/NP_1__AF-P1.pqr'' = ''NP_1__AF-P1.pqr''"
  by (simp add: basename_def)

theorem zero_rows_witness:
  "process_group Fin Map.empty Map.empty (\<lambda>p. DsspFile [dssp_header, dssp_row_short])
      (''NP_1'', [''pdb/NP_1__AF-P1.pdb'']) = Skipped (SkipParse ''NP_1__AF-P1.pdb'')
   \<and> main_loop Fin Map.empty Map.empty (\<lambda>p. DsspFile [dssp_header, dssp_row_short])
      [(''NP_1'', [''pdb/NP_1__AF-P1.pdb''])] = Inr ([], [SkipParse ''NP_1__AF-P1.pdb''])
   \<and> v3_rows Fin 3 True [(''pqr/NP_1__AF-P1.pqr'', Some pqr_no_atoms)]
       = [[''NP_1__AF-P1.pqr'', ''0.000'']]
   \<and> legacy_line Fin (''pqr/NP_1__AF-P1.pqr'', pqr_no_atoms)
       = ''NP_1__AF-P1.pqr'' @ [CHR 0x09] @ ''NetCharge=0.000'' @ [CHR 0x0A]"
proof -
  have a: "prefer_alphaFold [''pdb/NP_1__AF-P1.pdb''] = Inr ''pdb/NP_1__AF-P1.pdb''"
    by (simp add: prefer_alphaFold_def is_AF_def basename_def startswith_def)
  have b: "(\<lambda>p. DsspFile [dssp_header, dssp_row_short]) ''pdb/NP_1__AF-P1.pdb''
      = DsspFile [dssp_header, dssp_row_short]"
    by simp
  have c: "data_rows [dssp_header, dssp_row_short] = []"
    by (simp add: dssp_eval)
  have d: "fst (sum_charge_for_file Fin (Some pqr_no_atoms)) = 0"
    by (simp add: no_atoms_v3)
  have e: "basename ''pdb/NP_1__AF-P1.pdb'' = ''NP_1__AF-P1.pdb''"
    by (simp add: basename_def)
  note w = zero_rows [where ref2abbr = Map.empty and abbr2status = Map.empty
      and refseq = "''NP_1''" and gs = "[]" and path = "''pqr/NP_1__AF-P1.pqr''",
      OF a b c d no_atoms_legacy]
  show ?thesis using w by (simp add: e basename_example)
qed

text \<open>
  The claim as stated fails for charge tables: a PQR file without ATOM or HETATM lines
  gets a row with net charge \<open>0.000\<close> from both scripts.
\<close>

theorem zero_rows_counterexample:
  "fst (sum_charge_for_file Fin (Some pqr_no_atoms)) = 0
   \<and> v3_rows Fin 3 False [(''pqr/NP_1__AF-P1.pqr'', Some pqr_no_atoms)]
       = [[''path'', ''net_charge''], [''NP_1__AF-P1.pqr'', ''0.000'']]
   \<and> sum_pqr_charges_main Fin [(''pqr/NP_1__AF-P1.pqr'', pqr_no_atoms)]
       = ''NP_1__AF-P1.pqr'' @ [CHR 0x09] @ ''NetCharge=0.000'' @ [CHR 0x0A]"
proof -
  have "legacy_total Fin pqr_no_atoms = Fin 0"
    unfolding legacy_total_def using no_atoms_legacy by (rule legacy_no_charge)
  then have "sum_pqr_charges_main Fin [(''pqr/NP_1__AF-P1.pqr'', pqr_no_atoms)]
       = ''NP_1__AF-P1.pqr'' @ [CHR 0x09] @ ''NetCharge=0.000'' @ [CHR 0x0A]"
    by (simp add: sum_pqr_charges_main_def legacy_line_def format_zero basename_example)
  moreover have "v3_rows Fin 3 False [(''pqr/NP_1__AF-P1.pqr'', Some pqr_no_atoms)]
       = [[''path'', ''net_charge''], [''NP_1__AF-P1.pqr'', ''0.000'']]"
    by (simp add: v3_rows_def no_atoms_v3 format_zero basename_example)
  ultimately show ?thesis by (simp add: no_atoms_v3)
qed

subsection \<open>Reading back what the formatter writes\<close>

lemma digit_char_is_digit: "n < 10 \<Longrightarrow> is_digit (digit_char n)"
proof -
  assume "n < 10"
  then have "n \<in> {0, 1, 2, 3, 4, 5, 6, 7, 8, 9}" by auto
  then show ?thesis
    by (auto simp: is_digit_def digit_char_def)
qed

lemma digits_of_digits: "list_all is_digit (digits_of n) \<and> digits_of n \<noteq> []"
proof (induction n rule: digits_of.induct)
  case (1 n)
  show ?case
  proof (cases "n < 10")
    case True
    then show ?thesis by (simp add: digits_of_small digit_char_is_digit)
  next
    case False
    then show ?thesis using 1 by (simp add: digits_of_large digit_char_is_digit)
  qed
qed

lemma frac_digits_digits: "list_all is_digit (frac_digits d n)"
  by (induction d arbitrary: n) (simp_all add: digit_char_is_digit)

lemma is_digit_plain:
  assumes "is_digit c"
  shows "(of_char c :: nat) < 127" and "c \<noteq> CHR ''_''" and "\<not> c_isspace c"
    and "c \<noteq> CHR ''.''" and "c \<noteq> CHR ''-''" and "c \<noteq> CHR ''+''"
    and "\<not> py_isspace c"
  using assms by (auto simp: is_digit_def c_isspace_def py_isspace_def Let_def)

lemma dropWhile_none: "\<forall>c\<in>set s. \<not> P c \<Longrightarrow> dropWhile P s = s"
  by (cases s) simp_all

lemma drop_underscores_none:
  "CHR ''_'' \<notin> set s \<Longrightarrow> prev \<noteq> CHR ''_'' \<Longrightarrow> drop_underscores prev s = Some s"
proof (induction s arbitrary: prev)
  case Nil
  then show ?case by simp
next
  case (Cons a s)
  have a: "a \<noteq> CHR ''_''" using Cons.prems(1) by auto
  have "drop_underscores a s = Some s" using Cons.prems(1) a by (intro Cons.IH) simp_all
  then show ?case using a Cons.prems(2) by simp
qed

lemma float_ascii_plain: "\<forall>c\<in>set s. (of_char c :: nat) < 127 \<Longrightarrow> float_ascii s = s"
  unfolding float_ascii_def by (induction s) simp_all

lemma digits_then:
  assumes "list_all is_digit ds" and "\<not> is_digit c"
  shows "takeWhile is_digit (ds @ c # rest) = ds" and "dropWhile is_digit (ds @ c # rest) = c # rest"
  using assms by (induction ds) simp_all

lemma digits_all:
  assumes "list_all is_digit ds"
  shows "takeWhile is_digit ds = ds" and "dropWhile is_digit ds = []"
  using assms by (induction ds) simp_all

lemma parse_decimal_fixed:
  assumes "list_all is_digit ds1" and "ds1 \<noteq> []" and "list_all is_digit ds2"
  shows "parse_decimal (ds1 @ ''.'' @ ds2)
           = Some (scale10 (digits_val (ds1 @ ds2)) (- int (length ds2)))"
proof -
  have nd: "\<not> is_digit (CHR ''.'')" by (simp add: is_digit_def)
  have tw: "takeWhile is_digit (ds1 @ CHR ''.'' # ds2) = ds1"
    and dw: "dropWhile is_digit (ds1 @ CHR ''.'' # ds2) = CHR ''.'' # ds2"
    using digits_then [OF assms(1) nd] by simp_all
  have e: "parse_exponent [] = Some 0" by (simp add: parse_exponent_def)
  show ?thesis
    using assms(2) by (simp add: parse_decimal_def tw dw digits_all [OF assms(3)] e)
qed

lemma not_word:
  assumes "is_digit c" and "w \<noteq> []" and "\<not> is_digit (hd w)"
  shows "\<not> caseless_eq (c # s) w"
proof
  assume "caseless_eq (c # s) w"
  then have eq: "lower_codes (c # s) = map of_char w" by (simp add: caseless_eq_def)
  obtain x xs where w: "w = x # xs" using assms(2) by (cases w) auto
  have "(of_char c :: nat) = of_char x"
    using eq assms(1) unfolding w by (auto simp: lower_codes_def is_digit_def Let_def)
  then have "is_digit x" using assms(1) by (simp add: is_digit_def)
  then show False using assms(3) w by simp
qed

lemma parse_signed_digits:
  assumes "list_all is_digit ds1" and "ds1 \<noteq> []" and "list_all is_digit ds2"
  shows "\<exists>v. parse_signed rnd (ds1 @ ''.'' @ ds2) = Some (rnd v)
           \<and> parse_signed rnd (''-'' @ ds1 @ ''.'' @ ds2) = Some (rnd (- v))"
proof -
  obtain c cs where ds1: "ds1 = c # cs" using assms(2) by (cases ds1) auto
  have c: "is_digit c" using assms(1) ds1 by simp
  let ?body = "ds1 @ ''.'' @ ds2"
  have body: "?body = c # (cs @ ''.'' @ ds2)" using ds1 by simp
  have w1: "\<not> caseless_eq ?body ''inf''"
    unfolding body using c by (rule not_word) (simp_all add: is_digit_def)
  have w2: "\<not> caseless_eq ?body ''infinity''"
    unfolding body using c by (rule not_word) (simp_all add: is_digit_def)
  have w3: "\<not> caseless_eq ?body ''nan''"
    unfolding body using c by (rule not_word) (simp_all add: is_digit_def)
  have hd: "hd ?body = c" "?body \<noteq> []" using ds1 by simp_all
  have sign: "c \<noteq> CHR ''-''" "c \<noteq> CHR ''+''" using is_digit_plain [OF c] by simp_all
  note pd = parse_decimal_fixed [OF assms]
  have "parse_signed rnd ?body = Some (rnd (scale10 (digits_val (ds1 @ ds2)) (- int (length ds2))))"
    unfolding parse_signed_def Let_def using w1 w2 w3 pd hd sign by simp
  moreover have "parse_signed rnd (''-'' @ ?body)
      = Some (rnd (- scale10 (digits_val (ds1 @ ds2)) (- int (length ds2))))"
    unfolding parse_signed_def Let_def using w1 w2 w3 pd by simp
  ultimately show ?thesis by blast
qed

lemma py_float_plain:
  assumes "\<forall>c\<in>set s. is_digit c \<or> c = CHR ''.'' \<or> c = CHR ''-''"
  shows "py_float rnd s = parse_signed rnd s"
proof -
  have 1: "\<forall>c\<in>set s. (of_char c :: nat) < 127"
    using assms is_digit_plain(1) by auto
  have 2: "CHR ''_'' \<notin> set s"
    using assms is_digit_plain(2) by auto
  have 3: "\<forall>c\<in>set s. \<not> c_isspace c"
    using assms is_digit_plain(3) by (auto simp: c_isspace_def)
  then have 4: "\<forall>c\<in>set (rev s). \<not> c_isspace c" by simp
  show ?thesis
    unfolding py_float_def float_ascii_plain [OF 1]
    by (simp add: drop_underscores_none [OF 2] dropWhile_none [OF 3] dropWhile_none [OF 4])
qed

lemma format_f_shape:
  "format_f 3 (Fin v)
     = (if v < 0 then ''-'' else [])
       @ digits_of (round_half_even (\<bar>v\<bar> * 10 ^ 3) div 10 ^ 3) @ ''.''
       @ frac_digits 3 (round_half_even (\<bar>v\<bar> * 10 ^ 3))"
  by (simp add: format_f_def Let_def)

lemma format_f_plain:
  "\<forall>c\<in>set (format_f 3 (Fin v)). is_digit c \<or> c = CHR ''.'' \<or> c = CHR ''-''"
  unfolding format_f_shape using digits_of_digits frac_digits_digits
  by (auto simp: list_all_iff)

lemma format_f_parses: "\<exists>z. py_float rnd (format_f 3 x) = Some z"
proof (cases x)
  case (Fin v)
  let ?q = "round_half_even (\<bar>v\<bar> * 10 ^ 3)"
  let ?ds1 = "digits_of (?q div 10 ^ 3)" and ?ds2 = "frac_digits 3 ?q"
  have d1: "list_all is_digit ?ds1" "?ds1 \<noteq> []" using digits_of_digits by simp_all
  have d2: "list_all is_digit ?ds2" by (rule frac_digits_digits)
  obtain w where w: "parse_signed rnd (?ds1 @ ''.'' @ ?ds2) = Some (rnd w)"
      "parse_signed rnd (''-'' @ ?ds1 @ ''.'' @ ?ds2) = Some (rnd (- w))"
    using parse_signed_digits [OF d1 d2] by blast
  have "\<exists>z. parse_signed rnd (format_f 3 (Fin v)) = Some z"
  proof (cases "v < 0")
    case True
    have "format_f 3 (Fin v) = ''-'' @ ?ds1 @ ''.'' @ ?ds2"
      unfolding format_f_shape using True by (simp only: if_True)
    then show ?thesis using w(2) by (simp only:) blast
  next
    case False
    have "format_f 3 (Fin v) = [] @ ?ds1 @ ''.'' @ ?ds2"
      unfolding format_f_shape using False by (simp only: if_False)
    then have "format_f 3 (Fin v) = ?ds1 @ ''.'' @ ?ds2" by (simp only: append_Nil)
    then show ?thesis using w(1) by (simp only:) blast
  qed
  then show ?thesis using py_float_plain [OF format_f_plain] Fin by simp
next
  case PInf
  then show ?thesis by (simp add: format_f_def float_eval)
next
  case NInf
  then show ?thesis by (simp add: format_f_def float_eval)
next
  case NaN
  then show ?thesis by (simp add: format_f_def float_eval)
qed

lemma format_f_chars: "\<forall>c\<in>set (format_f 3 x). \<not> py_isspace c"
proof (cases x)
  case (Fin v)
  have "\<not> py_isspace c" if "c \<in> set (format_f 3 (Fin v))" for c
  proof -
    have "is_digit c \<or> c = CHR ''.'' \<or> c = CHR ''-''"
      using that format_f_plain by blast
    then show ?thesis
    proof (elim disjE)
      assume "is_digit c"
      then show ?thesis by (rule is_digit_plain(7))
    next
      assume "c = CHR ''.''"
      then show ?thesis by (simp add: py_isspace_def)
    next
      assume "c = CHR ''-''"
      then show ?thesis by (simp add: py_isspace_def)
    qed
  qed
  then show ?thesis unfolding Fin by blast
next
  case PInf
  then show ?thesis by (simp add: format_f_def py_isspace_def)
next
  case NInf
  then show ?thesis by (simp add: format_f_def py_isspace_def)
next
  case NaN
  then show ?thesis by (simp add: format_f_def py_isspace_def)
qed


lemma format_f_nonempty: "format_f 3 x \<noteq> []"
  using format_f_parses [of Fin x] by (auto simp: float_eval)


lemma space_chars: "py_isspace (CHR 0x09)" "py_isspace (CHR 0x0A)" "py_isspace (CHR 0x0D)"
  by (simp_all add: py_isspace_def)

lemma file_lines_acc_line:
  "CHR 0x0A \<notin> set l \<Longrightarrow> CHR 0x0D \<notin> set l
     \<Longrightarrow> file_lines_acc cur (l @ CHR 0x0A # rest) = (cur @ l @ [CHR 0x0A]) # file_lines_acc [] rest"
proof (induction l arbitrary: cur)
  case Nil
  then show ?case by simp
next
  case (Cons c l)
  have c: "c \<noteq> CHR 0x0A" "c \<noteq> CHR 0x0D" using Cons.prems by auto
  have "file_lines_acc (cur @ [c]) (l @ CHR 0x0A # rest)
      = ((cur @ [c]) @ l @ [CHR 0x0A]) # file_lines_acc [] rest"
    using Cons.prems by (intro Cons.IH) simp_all
  then show ?case using c by simp
qed

lemma file_lines_written:
  "\<forall>l\<in>set ls. CHR 0x0A \<notin> set l \<and> CHR 0x0D \<notin> set l
     \<Longrightarrow> file_lines_acc [] (concat (map (\<lambda>l. l @ [CHR 0x0A]) ls)) = map (\<lambda>l. l @ [CHR 0x0A]) ls"
proof (induction ls)
  case Nil
  then show ?case by simp
next
  case (Cons l ls)
  have "file_lines_acc [] (l @ CHR 0x0A # concat (map (\<lambda>l. l @ [CHR 0x0A]) ls))
      = ([] @ l @ [CHR 0x0A]) # file_lines_acc [] (concat (map (\<lambda>l. l @ [CHR 0x0A]) ls))"
    using Cons.prems by (intro file_lines_acc_line) simp_all
  then show ?case using Cons by simp
qed

lemma strip_written:
  assumes "s \<noteq> []" and "\<not> py_isspace (hd s)" and "\<not> py_isspace (last s)"
  shows "strip (s @ [CHR 0x0A]) = s"
proof -
  obtain c cs where s: "s = c # cs" using assms(1) by (cases s) auto
  have l: "lstrip (s @ [CHR 0x0A]) = s @ [CHR 0x0A]"
    using assms(2) s by (simp add: lstrip_def)
  obtain d ds where r: "rev s = d # ds" using assms(1) by (cases "rev s") auto
  have "d = last s" using r by (metis last_rev list.sel(1) rev_rev_ident)
  then have "\<not> py_isspace d" using assms(3) by simp
  then have "dropWhile py_isspace (rev s) = rev s" unfolding r by simp
  then have "rstrip (s @ [CHR 0x0A]) = s"
    by (simp add: rstrip_def space_chars)
  then show ?thesis by (simp add: strip_def l)
qed

lemma split_tab:
  assumes "CHR 0x09 \<notin> set name"
  shows "split_char1 (CHR 0x09) (name @ CHR 0x09 # rest) = [name, rest]"
proof -
  have "takeWhile (\<lambda>c. c \<noteq> CHR 0x09) (name @ CHR 0x09 # rest) = name"
    using assms by (induction name) auto
  moreover have "dropWhile (\<lambda>c. c \<noteq> CHR 0x09) (name @ CHR 0x09 # rest) = CHR 0x09 # rest"
    using assms by (induction name) auto
  ultimately show ?thesis by (simp add: split_char1_def)
qed

lemma netcharge_token:
  "startswith ''NetCharge='' (''NetCharge='' @ v)"
  "split_char1 (CHR ''='') (''NetCharge='' @ v) ! 1 = v"
  by (simp_all add: startswith_def split_char1_def)

lemma read_step_written:
  assumes "tsv_safe (basename (fst f))"
  shows "\<exists>z. read_step rnd rows (legacy_line rnd' f) = rows @ [(basename (fst f), z)]"
proof -
  let ?name = "basename (fst f)" and ?v = "format_f 3 (legacy_total rnd' (snd f))"
  define tok where "tok = ''NetCharge='' @ ?v"
  let ?s = "?name @ CHR 0x09 # tok"
  have line: "legacy_line rnd' f = ?s @ [CHR 0x0A]" by (simp add: legacy_line_def tok_def)
  have ne: "?name \<noteq> []" and hd: "\<not> py_isspace (hd ?name)" and tab: "CHR 0x09 \<notin> set ?name"
    using assms by (simp_all add: tsv_safe_def)
  have tk: "startswith ''NetCharge='' tok" "split_char1 (CHR ''='') tok ! 1 = ?v"
    unfolding tok_def by (rule netcharge_token)+
  have tk2: "split_char1 (CHR ''='') tok ! Suc 0 = ?v" using tk(2) by simp
  have v: "?v \<noteq> []" by (rule format_f_nonempty)
  have "last ?s = last ?v" using v by (simp add: tok_def)
  moreover have "last ?v \<in> set ?v" using v by (rule last_in_set)
  ultimately have last: "\<not> py_isspace (last ?s)" using format_f_chars by metis
  have hd': "\<not> py_isspace (hd ?s)" using ne hd by (cases ?name) simp_all
  have st: "strip (?s @ [CHR 0x0A]) = ?s"
    using _ hd' last by (rule strip_written) simp
  obtain z where z: "py_float rnd ?v = Some z" using format_f_parses by blast
  have "read_step rnd rows (legacy_line rnd' f) = rows @ [(?name, z)]"
    unfolding line read_step_def st Let_def split_tab [OF tab]
    using ne by (simp add: tk tk2 z)
  then show ?thesis by blast
qed

lemma legacy_line_body:
  assumes "tsv_safe (basename (fst f))"
  shows "\<exists>body. legacy_line rnd f = body @ [CHR 0x0A] \<and> CHR 0x0A \<notin> set body \<and> CHR 0x0D \<notin> set body"
proof -
  let ?name = "basename (fst f)" and ?v = "format_f 3 (legacy_total rnd (snd f))"
  let ?body = "?name @ [CHR 0x09] @ ''NetCharge='' @ ?v"
  have v: "CHR 0x0A \<notin> set ?v" "CHR 0x0D \<notin> set ?v"
    using format_f_chars [of "legacy_total rnd (snd f)"] space_chars by blast+
  have n: "CHR 0x0A \<notin> set ?name" "CHR 0x0D \<notin> set ?name"
    using assms by (simp_all add: tsv_safe_def)
  have "CHR 0x0A \<notin> set ?body" "CHR 0x0D \<notin> set ?body" using v n by simp_all
  moreover have "legacy_line rnd f = ?body @ [CHR 0x0A]" by (simp add: legacy_line_def)
  ultimately show ?thesis by blast
qed

lemma written_lines:
  assumes "\<forall>f\<in>set files. tsv_safe (basename (fst f))"
  shows "file_lines (sum_pqr_charges_main rnd files) = map (legacy_line rnd) files"
proof -
  have "\<exists>bodies. map (legacy_line rnd) files = map (\<lambda>l. l @ [CHR 0x0A]) bodies
          \<and> (\<forall>l\<in>set bodies. CHR 0x0A \<notin> set l \<and> CHR 0x0D \<notin> set l)"
    using assms
  proof (induction files)
    case Nil
    then show ?case by simp
  next
    case (Cons f files)
    obtain bodies where b: "map (legacy_line rnd) files = map (\<lambda>l. l @ [CHR 0x0A]) bodies"
        "\<forall>l\<in>set bodies. CHR 0x0A \<notin> set l \<and> CHR 0x0D \<notin> set l"
      using Cons by auto
    obtain body where f: "legacy_line rnd f = body @ [CHR 0x0A]" "CHR 0x0A \<notin> set body"
        "CHR 0x0D \<notin> set body"
      using legacy_line_body [of f rnd] Cons.prems by auto
    have "map (legacy_line rnd) (f # files) = map (\<lambda>l. l @ [CHR 0x0A]) (body # bodies)"
      using b(1) f(1) by simp
    moreover have "\<forall>l\<in>set (body # bodies). CHR 0x0A \<notin> set l \<and> CHR 0x0D \<notin> set l"
      using b(2) f(2,3) by simp
    ultimately show ?case by blast
  qed
  then obtain bodies where b: "map (legacy_line rnd) files = map (\<lambda>l. l @ [CHR 0x0A]) bodies"
      "\<forall>l\<in>set bodies. CHR 0x0A \<notin> set l \<and> CHR 0x0D \<notin> set l"
    by blast
  have "file_lines (sum_pqr_charges_main rnd files)
      = file_lines_acc [] (concat (map (\<lambda>l. l @ [CHR 0x0A]) bodies))"
    by (simp only: file_lines_def sum_pqr_charges_main_def b(1))
  also have "\<dots> = map (\<lambda>l. l @ [CHR 0x0A]) bodies"
    using b(2) by (rule file_lines_written)
  finally show ?thesis using b(1) by simp
qed

lemma read_fold_written:
  assumes "\<forall>f\<in>set files. tsv_safe (basename (fst f))"
  shows "\<exists>rows'. foldl (read_step rnd) rows (map (legacy_line rnd') files) = rows @ rows'
           \<and> map fst rows' = map (\<lambda>f. basename (fst f)) files"
  using assms
proof (induction files arbitrary: rows)
  case Nil
  then show ?case by simp
next
  case (Cons f files)
  obtain z where z: "read_step rnd rows (legacy_line rnd' f) = rows @ [(basename (fst f), z)]"
    using read_step_written [of f rnd rows rnd'] Cons.prems by auto
  obtain rows' where r: "foldl (read_step rnd) (rows @ [(basename (fst f), z)])
        (map (legacy_line rnd') files) = (rows @ [(basename (fst f), z)]) @ rows'"
      "map fst rows' = map (\<lambda>f. basename (fst f)) files"
    using Cons.IH [of "rows @ [(basename (fst f), z)]"] Cons.prems by auto
  have "foldl (read_step rnd) rows (map (legacy_line rnd') (f # files))
      = rows @ ((basename (fst f), z) # rows')"
    using z r(1) by simp
  moreover have "map fst ((basename (fst f), z) # rows') = map (\<lambda>f. basename (fst f)) (f # files)"
    using r(2) by simp
  ultimately show ?case by blast
qed

lemma read_written:
  assumes "pqr_files \<noteq> []" and "\<forall>f\<in>set pqr_files. tsv_safe (basename (fst f))"
  shows "\<exists>rows. read_charges_table rnd (sum_pqr_charges_main rnd pqr_files) = Inr rows
           \<and> map fst rows = map (\<lambda>f. basename (fst f)) pqr_files"
proof -
  obtain rows where r: "foldl (read_step rnd) [] (map (legacy_line rnd) pqr_files) = [] @ rows"
      "map fst rows = map (\<lambda>f. basename (fst f)) pqr_files"
    using read_fold_written [OF assms(2), of rnd "[]" rnd] by blast
  have "rows \<noteq> []" using r(2) assms(1) by auto
  then have "read_charges_table rnd (sum_pqr_charges_main rnd pqr_files) = Inr rows"
    using r(1) by (simp add: read_charges_table_def written_lines [OF assms(2)])
  then show ?thesis using r(2) by blast
qed

text \<open>
  Claim C10, as amended. When no file name of the table holds a tab, a line feed or a
  carriage return, or starts with whitespace, the table that \<open>sum_pqr_charges.main\<close> writes
  is read back by \<open>label_and_plot_net_charges.main\<close> with one row per file, in order, with
  the same file names: the entity keys (the text before the first \<open>__\<close>) and the status
  labels resolved for them are those of the files written.
\<close>

theorem charge_table_round_trip:
  assumes "pqr_files \<noteq> []" and "\<forall>f\<in>set pqr_files. tsv_safe (basename (fst f))"
    and "build_refseq_to_abbr map_lines = Inr ref2abbr"
  shows "\<exists>labelled. label_main rnd (sum_pqr_charges_main rnd pqr_files) map_lines abbr2status
             = Inr labelled
           \<and> map File labelled = map (\<lambda>f. basename (fst f)) pqr_files
           \<and> map RefSeq_col labelled = map (\<lambda>f. refseq_of (basename (fst f))) pqr_files
           \<and> map Status labelled
               = map (\<lambda>f. snd (label_join ref2abbr abbr2status (refseq_of (basename (fst f)))))
                   pqr_files"
proof -
  obtain rows where r: "read_charges_table rnd (sum_pqr_charges_main rnd pqr_files) = Inr rows"
      "map fst rows = map (\<lambda>f. basename (fst f)) pqr_files"
    using read_written [OF assms(1,2)] by blast
  let ?labelled = "map (label_row ref2abbr abbr2status) rows"
  have 1: "label_main rnd (sum_pqr_charges_main rnd pqr_files) map_lines abbr2status = Inr ?labelled"
    by (simp add: label_main_def r(1) assms(3))
  have 2: "map File ?labelled = map fst rows"
    by (simp add: label_row_def Let_def)
  have 3: "map RefSeq_col ?labelled = map refseq_of (map fst rows)"
    by (simp add: label_row_def Let_def)
  have 4: "map Status ?labelled
      = map (\<lambda>n. snd (label_join ref2abbr abbr2status (refseq_of n))) (map fst rows)"
    by (simp add: label_row_def Let_def)
  show ?thesis
    using 1 2 3 4 unfolding r(2) by (intro exI [of _ ?labelled]) (simp add: comp_def)
qed

lemma example_map: "build_refseq_to_abbr [''ABC|NP_1|geneX''] = Inr [''NP_1'' \<mapsto> ''ABC'']"
  by (simp add: build_refseq_to_abbr_def load_step_def setdefault_def map_entry_eval)

theorem charge_table_round_trip_witness:
  "\<exists>labelled. label_main Fin (sum_pqr_charges_main Fin [(''pqr/NP_1__AF-P1.pqr'', pqr_no_atoms)])
        [''ABC|NP_1|geneX''] [''ABC'' \<mapsto> ''aquatic''] = Inr labelled
      \<and> map File labelled = [''NP_1__AF-P1.pqr'']
      \<and> map RefSeq_col labelled = [''NP_1'']
      \<and> map Status labelled = [''aquatic'']"
proof -
  let ?files = "[(''pqr/NP_1__AF-P1.pqr'', pqr_no_atoms)]"
  have a: "?files \<noteq> []" by simp
  have b: "\<forall>f\<in>set ?files. tsv_safe (basename (fst f))"
    by (simp add: tsv_safe_def basename_def py_isspace_def)
  have k: "refseq_of ''NP_1__AF-P1.pqr'' = ''NP_1''"
    by (simp add: refseq_of_def startswith_def)
  have s: "snd (label_join [''NP_1'' \<mapsto> ''ABC''] [''ABC'' \<mapsto> ''aquatic''] ''NP_1'') = ''aquatic''"
    by (simp add: label_join_def)
  show ?thesis
    using charge_table_round_trip [OF a b example_map, of Fin "[''ABC'' \<mapsto> ''aquatic'']"]
    by (simp add: basename_example k s)
qed

lemma legacy_total_no_atoms: "legacy_total rnd pqr_no_atoms = Fin 0"
  unfolding legacy_total_def using no_atoms_legacy by (rule legacy_no_charge)

lemma tab_text:
  "sum_pqr_charges_main Fin [(pqr_tab_path, pqr_no_atoms), (''pqr/NP_2__AF-P2.pqr'', pqr_no_atoms)]
     = ''NP_1__AF'' @ [CHR 0x09] @ ''P1.pqr'' @ [CHR 0x09] @ ''NetCharge=0.000'' @ [CHR 0x0A]
       @ ''NP_2__AF-P2.pqr'' @ [CHR 0x09] @ ''NetCharge=0.000'' @ [CHR 0x0A]"
  by (simp add: sum_pqr_charges_main_def legacy_line_def legacy_total_no_atoms format_zero
    pqr_tab_path_def basename_def)

lemma tab_lines:
  "file_lines (''NP_1__AF'' @ [CHR 0x09] @ ''P1.pqr'' @ [CHR 0x09] @ ''NetCharge=0.000'' @ [CHR 0x0A]
       @ ''NP_2__AF-P2.pqr'' @ [CHR 0x09] @ ''NetCharge=0.000'' @ [CHR 0x0A])
     = [''NP_1__AF'' @ [CHR 0x09] @ ''P1.pqr'' @ [CHR 0x09] @ ''NetCharge=0.000'' @ [CHR 0x0A],
        ''NP_2__AF-P2.pqr'' @ [CHR 0x09] @ ''NetCharge=0.000'' @ [CHR 0x0A]]"
  by (simp add: file_lines_def)

lemma tab_step1:
  "read_step Fin [] (''NP_1__AF'' @ [CHR 0x09] @ ''P1.pqr'' @ [CHR 0x09] @ ''NetCharge=0.000'' @ [CHR 0x0A])
     = []"
  by (simp add: read_step_def strip_def lstrip_def rstrip_def py_isspace_def split_char1_def
    startswith_def)

lemma tab_step2:
  "read_step Fin [] (''NP_2__AF-P2.pqr'' @ [CHR 0x09] @ ''NetCharge=0.000'' @ [CHR 0x0A])
     = [(''NP_2__AF-P2.pqr'', Fin 0)]"
  by (simp add: read_step_def strip_def lstrip_def rstrip_def split_char1_def
    startswith_def float_eval)

text \<open>
  The claim as stated fails: the table has no escaping, so the line of a file whose name
  holds a tab is split at that tab and dropped by the reader, and its entity key is lost.
\<close>

theorem charge_table_round_trip_counterexample:
  "map (\<lambda>f. refseq_of (basename (fst f)))
     [(pqr_tab_path, pqr_no_atoms), (''pqr/NP_2__AF-P2.pqr'', pqr_no_atoms)] = [''NP_1'', ''NP_2'']
   \<and> read_charges_table Fin
       (sum_pqr_charges_main Fin [(pqr_tab_path, pqr_no_atoms), (''pqr/NP_2__AF-P2.pqr'', pqr_no_atoms)])
       = Inr [(''NP_2__AF-P2.pqr'', Fin 0)]"
proof -
  have "map (\<lambda>f. refseq_of (basename (fst f)))
     [(pqr_tab_path, pqr_no_atoms), (''pqr/NP_2__AF-P2.pqr'', pqr_no_atoms)] = [''NP_1'', ''NP_2'']"
    by (simp add: refseq_of_def basename_def pqr_tab_path_def startswith_def)
  moreover have "read_charges_table Fin
       (sum_pqr_charges_main Fin [(pqr_tab_path, pqr_no_atoms), (''pqr/NP_2__AF-P2.pqr'', pqr_no_atoms)])
       = Inr [(''NP_2__AF-P2.pqr'', Fin 0)]"
    unfolding read_charges_table_def tab_text tab_lines
    by (simp only: foldl.simps tab_step1 tab_step2 Let_def) simp
  ultimately show ?thesis by blast
qed

end
